theory Spec2Isabelle
  imports Main "HOL-Library.AList"
begin

section \<open>Data model of the jackpot helper (jackpot_index.js)\<close>

text \<open>
  The helper bot polls the table \<^verbatim>\<open>de_jackpot_sessions\<close>, claims pending rows, plays the
  dice run with the player in memory and writes the outcome back. The model below is a
  shallow embedding of \<^verbatim>\<open>src/jackpot_index.js\<close>: the table is a list of rows, every SQL
  statement of the source is a function on that list, the in-memory Map is an
  association list in insertion order, timers are an explicit list of pending callbacks,
  and every rejected promise of the source is an explicit input of the model.
\<close>

text \<open>The values of the \<^verbatim>\<open>status\<close> column that the source reads or writes.\<close>

datatype status =
    pending_pickup
  | active_by_helper
  | completed_bust
  | completed_target_reached
  | completed_timeout_forfeit
  | error_helper_init_prompt
  | error_sending_message

section \<open>Values of the database driver and of JavaScript\<close>

text \<open>
  The driver hands an integer column to JavaScript either as a number (a 32-bit integer
  column) or as the decimal text of the integer (a 64-bit or numeric column). The source
  reads \<^verbatim>\<open>initial_score\<close> both ways: lines 149 and 161 pass it through \<^verbatim>\<open>parseInt\<close>, line
  250 adds it as it is.
\<close>

datatype driver_int = As_number int | As_text int

text \<open>
  What an expression of the source evaluates to: a number or a string. The numbers of a
  dice run are integers far below \<open>2 ^ 53\<close>, where the doubles of JavaScript are exact.
\<close>

datatype js_value = Num int | Str string

text \<open>
  \<^verbatim>\<open>parseInt(x, 10)\<close> of a driver value: the integer, for the number as for its decimal
  text.
\<close>

definition parseInt10 :: "driver_int \<Rightarrow> int" where
  "parseInt10 x = (case x of As_number n \<Rightarrow> n | As_text n \<Rightarrow> n)"

text \<open>\<^verbatim>\<open>String(n)\<close> of an integer: its decimal text, with a minus sign when negative.\<close>

definition digit_char :: "nat \<Rightarrow> char" where
  "digit_char d = ''0123456789'' ! d"

fun digits :: "nat \<Rightarrow> string" where
  "digits n = (if n < 10 then [digit_char n] else digits (n div 10) @ [digit_char (n mod 10)])"

declare digits.simps [simp del]

definition decimal :: "int \<Rightarrow> string" where
  "decimal n = (if n < 0 then CHR ''-'' # digits (nat (- n)) else digits (nat n))"

text \<open>
  \<^verbatim>\<open>x + m\<close> for a driver value \<open>x\<close> and a number \<open>m\<close>: the sum when \<open>x\<close> is a number, the
  concatenation of the two texts when \<open>x\<close> is a string.
\<close>

definition js_add :: "driver_int \<Rightarrow> int \<Rightarrow> js_value" where
  "js_add x m = (case x of As_number n \<Rightarrow> Num (n + m) | As_text n \<Rightarrow> Str (decimal n @ decimal m))"

text \<open>
  \<^verbatim>\<open>Number(s)\<close> on the strings that \<open>js_add\<close> produces (two decimal texts, one after the
  other): the integer when \<open>s\<close> is an optional minus sign and digits, 0 for the empty
  string, and \<^verbatim>\<open>NaN\<close> (\<open>None\<close>) otherwise.
\<close>

definition digit_val :: "char \<Rightarrow> nat option" where
  "digit_val c =
     map_of [(CHR ''0'', 0), (CHR ''1'', 1), (CHR ''2'', 2), (CHR ''3'', 3), (CHR ''4'', 4),
             (CHR ''5'', 5), (CHR ''6'', 6), (CHR ''7'', 7), (CHR ''8'', 8), (CHR ''9'', 9)] c"

fun digits_value :: "nat \<Rightarrow> string \<Rightarrow> nat option" where
  "digits_value acc [] = Some acc"
| "digits_value acc (c # cs) =
     (case digit_val c of None \<Rightarrow> None | Some d \<Rightarrow> digits_value (10 * acc + d) cs)"

definition ToNumber :: "string \<Rightarrow> int option" where
  "ToNumber s =
     (case s of
        [] \<Rightarrow> Some 0
      | c # cs \<Rightarrow>
          (if c = CHR ''-'' then
             (case cs of [] \<Rightarrow> None | _ \<Rightarrow> map_option (\<lambda>n. - int n) (digits_value 0 cs))
           else map_option int (digits_value 0 s)))"

text \<open>
  \<^verbatim>\<open>x >= t\<close> for a value \<open>x\<close> and a number \<open>t\<close>: a string is converted with \<^verbatim>\<open>Number\<close> first,
  and a comparison with \<^verbatim>\<open>NaN\<close> is false.
\<close>

definition js_ge :: "js_value \<Rightarrow> int \<Rightarrow> bool" where
  "js_ge x t = (case x of
                  Num n \<Rightarrow> n \<ge> t
                | Str s \<Rightarrow> (case ToNumber s of None \<Rightarrow> False | Some n \<Rightarrow> n \<ge> t))"

section \<open>Rows, sessions and the state of the helper\<close>

text \<open>
  The \<^verbatim>\<open>outcomeNotesStr\<close> argument of \<^verbatim>\<open>finalizeJackpotSession\<close>. The source builds a
  text from a template; the model keeps the template and its holes.
\<close>

datatype outcome_note =
    Busted_on int                  \<comment> \<open>\<^verbatim>\<open>Busted on a ${diceValue} during jackpot run!\<close>\<close>
  | Target_reached int js_value    \<comment> \<open>\<^verbatim>\<open>Target ${target}+ reached with score ${score}!\<close>\<close>
  | Turn_timed_out                 \<comment> \<open>\<^verbatim>\<open>Turn timed out during jackpot run.\<close>\<close>
  | Failed_initial_prompt          \<comment> \<open>\<^verbatim>\<open>Failed initial prompt: ...\<close>\<close>
  | Helper_failed_to_send          \<comment> \<open>\<^verbatim>\<open>Helper failed to send message to chat: ...\<close>\<close>

text \<open>
  Modelled from the spec: the schema of \<^verbatim>\<open>de_jackpot_sessions\<close> is created by the main
  bot and is not part of this repository. The columns are the ones the source reads and
  writes; their types follow the data model of the specification (integer scores, an
  ordered sequence of prior roll values), and \<^verbatim>\<open>target_jackpot_score\<close> and \<^verbatim>\<open>bust_on_value\<close>,
  which the source never converts, reach it as numbers. \<^verbatim>\<open>initial_score\<close> is the value the
  driver delivers, a number or a text. \<^verbatim>\<open>final_score\<close> is the value handed to the update.
  A \<^verbatim>\<open>NULL\<close> is \<open>None\<close>. The column
  \<^verbatim>\<open>initial_rolls_json\<close> holds the JSON text of an array of integers, so
  \<^verbatim>\<open>JSON.parse(x || '[]')\<close> is the list itself, and \<open>[]\<close> for \<open>None\<close>. The column
  \<^verbatim>\<open>jackpot_pool_at_session_start\<close> is \<open>None\<close> when \<^verbatim>\<open>BigInt(...)\<close> rejects its value.
\<close>

record row =
  session_id :: int
  status :: status
  helper_bot_id :: "string option"
  user_id :: int
  chat_id :: int
  initial_score :: driver_int
  initial_rolls_json :: "int list option"
  target_jackpot_score :: int
  bust_on_value :: int
  jackpot_pool_at_session_start :: "int option"
  final_score :: "js_value option"
  final_rolls_json :: "int list option"
  outcome_notes :: "outcome_note option"
  created_at :: nat
  updated_at :: nat

text \<open>
  The value stored in \<^verbatim>\<open>activeHelperSessions\<close>: the claimed row spread into an object
  (\<^verbatim>\<open>...claimedSessionData\<close>) with the run-scoped fields added.
\<close>

record session_data = row +
  jackpot_run_rolls :: "int list"
  jackpot_run_score :: int
  current_total_score :: js_value
  turnTimeoutId :: "nat option"
  initial_rolls_parsed :: "int list"

text \<open>What the helper sends through the Telegram API.\<close>

datatype outbound =
    Run_update int int "int option" bool
      \<comment> \<open>chat, session, \<^verbatim>\<open>lastRollValue\<close>, whether the text asks for another roll\<close>
  | Final_message int int js_value outcome_note
      \<comment> \<open>chat, session, \<^verbatim>\<open>finalOverallScore\<close>, outcome\<close>
  | Delete_message int int
      \<comment> \<open>chat, message id\<close>

text \<open>The lines the source writes to the console that report what a store call did.\<close>

datatype console_line =
    Session_claimed int                 \<comment> \<open>\<^verbatim>\<open>Session claimed by ...\<close>\<close>
  | Failed_to_claim int                 \<comment> \<open>\<^verbatim>\<open>Failed to claim (session ... likely picked ...)\<close>\<close>
  | Claim_db_error                      \<comment> \<open>\<^verbatim>\<open>DB Error during claim attempt\<close>\<close>
  | No_session_in_memory int            \<comment> \<open>\<^verbatim>\<open>No active session data found in memory to finalize.\<close>\<close>
  | Db_record_updated int status        \<comment> \<open>\<^verbatim>\<open>DB record updated to ${finalStatus}.\<close>\<close>
  | Did_not_update int                  \<comment> \<open>\<^verbatim>\<open>Did not update DB record for session ...\<close>\<close>
  | Finalize_db_error int               \<comment> \<open>\<^verbatim>\<open>Error updating de_jackpot_sessions table ...\<close>\<close>
  | User_rolled int int int             \<comment> \<open>\<^verbatim>\<open>[... SID:${activeSessionId}] User ${userId} rolled ${diceValue} ...\<close>\<close>
  | User_timed_out int                  \<comment> \<open>\<^verbatim>\<open>User ... timed out during jackpot run.\<close>\<close>
  | Init_prompt_error int               \<comment> \<open>\<^verbatim>\<open>Error in initial sendJackpotRunUpdate for SID ...\<close>\<close>

text \<open>
  The state of one helper process together with the shared table:
  \<^item> \<open>activeHelperSessions\<close>: the Map of the source, keys in insertion order;
  \<^item> \<open>stored\<close>: the rows of \<^verbatim>\<open>de_jackpot_sessions\<close>;
  \<^item> \<open>timers\<close>: the pending \<^verbatim>\<open>setTimeout\<close> callbacks, each with the session id its
    closure holds; \<open>next_timer\<close> is the next fresh timer handle;
  \<^item> \<open>outbox\<close>, \<open>console\<close>: what was sent and logged, oldest first.
\<close>

record helper_state =
  activeHelperSessions :: "(int \<times> session_data) list"
  stored :: "row list"
  timers :: "(nat \<times> int) list"
  next_timer :: nat
  outbox :: "outbound list"
  console :: "console_line list"
  isShuttingDownHelper :: bool
  botUsername :: string

section \<open>The SQL statements\<close>

text \<open>
  \<^verbatim>\<open>SELECT * FROM de_jackpot_sessions WHERE status = 'pending_pickup'
  ORDER BY created_at ASC LIMIT 1 FOR UPDATE SKIP LOCKED\<close>.
  The rows locked by other transactions are an input (\<open>locked\<close>, their session ids).
\<close>

definition select_pending :: "int list \<Rightarrow> row list \<Rightarrow> row option" where
  "select_pending locked tbl =
     (case sort_key created_at
             (filter (\<lambda>r. status r = pending_pickup \<and> session_id r \<notin> set locked) tbl) of
        [] \<Rightarrow> None
      | r # _ \<Rightarrow> Some r)"

text \<open>
  \<^verbatim>\<open>UPDATE de_jackpot_sessions SET status = $1, helper_bot_id = $2, updated_at = NOW()
  WHERE session_id = $3 AND status = 'pending_pickup' RETURNING *\<close>
  with \<^verbatim>\<open>$1 = 'active_by_helper'\<close>. The result is the new table and the returned rows.
\<close>

definition claim_matches :: "int \<Rightarrow> row \<Rightarrow> bool" where
  "claim_matches sessionId r \<longleftrightarrow> session_id r = sessionId \<and> status r = pending_pickup"

definition claim_set :: "string \<Rightarrow> nat \<Rightarrow> row \<Rightarrow> row" where
  "claim_set botName now r = r\<lparr>status := active_by_helper, helper_bot_id := Some botName, updated_at := now\<rparr>"

definition claim_update :: "string \<Rightarrow> nat \<Rightarrow> int \<Rightarrow> row list \<Rightarrow> row list \<times> row list" where
  "claim_update botName now sessionId tbl =
     (map (\<lambda>r. if claim_matches sessionId r then claim_set botName now r else r) tbl,
      map (claim_set botName now) (filter (claim_matches sessionId) tbl))"

text \<open>
  \<^verbatim>\<open>UPDATE de_jackpot_sessions SET status = $1, final_score = $2, final_rolls_json = $3,
  outcome_notes = $4, updated_at = NOW()
  WHERE session_id = $5 AND (status = 'active_by_helper' OR helper_bot_id = $6)\<close>.
  The result is the new table and \<^verbatim>\<open>rowCount\<close>.
\<close>

definition finalize_matches :: "int \<Rightarrow> string \<Rightarrow> row \<Rightarrow> bool" where
  "finalize_matches sessionId botName r \<longleftrightarrow>
     session_id r = sessionId \<and> (status r = active_by_helper \<or> helper_bot_id r = Some botName)"

definition finalize_set :: "status \<Rightarrow> js_value \<Rightarrow> int list \<Rightarrow> outcome_note \<Rightarrow> nat \<Rightarrow> row \<Rightarrow> row" where
  "finalize_set finalStatus finalOverallScore finalRollsCombined outcomeNotesStr now r =
     r\<lparr>status := finalStatus, final_score := Some finalOverallScore,
       final_rolls_json := Some finalRollsCombined, outcome_notes := Some outcomeNotesStr,
       updated_at := now\<rparr>"

definition finalize_update ::
  "status \<Rightarrow> js_value \<Rightarrow> int list \<Rightarrow> outcome_note \<Rightarrow> int \<Rightarrow> string \<Rightarrow> nat \<Rightarrow> row list \<Rightarrow> row list \<times> nat" where
  "finalize_update finalStatus finalOverallScore finalRollsCombined outcomeNotesStr sessionId botName now tbl =
     (map (\<lambda>r. if finalize_matches sessionId botName r
                then finalize_set finalStatus finalOverallScore finalRollsCombined outcomeNotesStr now r
                else r) tbl,
      length (filter (finalize_matches sessionId botName) tbl))"

section \<open>Timers\<close>

text \<open>\<^verbatim>\<open>clearTimeout(id)\<close>: the callback with this handle no longer fires.\<close>

definition clearTimeout :: "nat \<Rightarrow> helper_state \<Rightarrow> helper_state" where
  "clearTimeout t st = st\<lparr>timers := filter (\<lambda>p. fst p \<noteq> t) (timers st)\<rparr>"

text \<open>
  \<^verbatim>\<open>setTimeout(() => handleJackpotRunTurnTimeout(sessionId), ...)\<close>: a fresh handle, and one
  more pending callback.
\<close>

definition setTimeout :: "int \<Rightarrow> helper_state \<Rightarrow> nat \<times> helper_state" where
  "setTimeout sessionId st =
     (next_timer st,
      st\<lparr>timers := timers st @ [(next_timer st, sessionId)], next_timer := Suc (next_timer st)\<rparr>)"

text \<open>The pending timers whose callback is for a given session.\<close>

definition pending_timers :: "int \<Rightarrow> helper_state \<Rightarrow> nat list" where
  "pending_timers sessionId st = map fst (filter (\<lambda>p. snd p = sessionId) (timers st))"

section \<open>finalizeJackpotSession\<close>

text \<open>
  \<^verbatim>\<open>JSON.parse(sessionData?.initial_rolls_json || '[]')\<close>: the initial rolls of the session
  found in memory, and the empty list when there is none.
\<close>

definition initialRolls_of :: "session_data option \<Rightarrow> int list" where
  "initialRolls_of sessionData =
     (case sessionData of
        None \<Rightarrow> []
      | Some sd \<Rightarrow> (case initial_rolls_json sd of None \<Rightarrow> [] | Some xs \<Rightarrow> xs))"

text \<open>
  \<^verbatim>\<open>finalizeJackpotSession(sessionId, finalStatus, finalOverallScore, jackpotRunRollsArray,
  outcomeNotesStr)\<close>. The first two arguments are the environment of the call: \<open>dbFails\<close>
  says that \<^verbatim>\<open>pool.connect()\<close> or the query rejects (the \<^verbatim>\<open>catch\<close> branch), \<open>now\<close> is the
  value of \<^verbatim>\<open>NOW()\<close>. The steps are the source's, in its order: look the session up, warn
  when it is missing, clear its timer, delete it from the Map, build the combined rolls,
  run the conditional update, and send the final message only when a row was updated
  and the session was found. All it does to the Map and to the timers comes before its
  first \<^verbatim>\<open>await\<close>; what follows the store call only logs and sends. So the model runs
  the call in one piece.
\<close>

definition finalizeJackpotSession ::
  "bool \<Rightarrow> nat \<Rightarrow> int \<Rightarrow> status \<Rightarrow> js_value \<Rightarrow> int list \<Rightarrow> outcome_note \<Rightarrow> helper_state \<Rightarrow> helper_state" where
  "finalizeJackpotSession dbFails now sessionId finalStatus finalOverallScore jackpotRunRollsArray
       outcomeNotesStr st =
     (let sessionData = map_of (activeHelperSessions st) sessionId;
          st1 = (case sessionData of
                   None \<Rightarrow> st\<lparr>console := console st @ [No_session_in_memory sessionId]\<rparr>
                 | Some sd \<Rightarrow> st);
          st2 = (case sessionData of
                   None \<Rightarrow> st1
                 | Some sd \<Rightarrow> (case turnTimeoutId sd of None \<Rightarrow> st1 | Some t \<Rightarrow> clearTimeout t st1));
          st3 = st2\<lparr>activeHelperSessions := AList.delete sessionId (activeHelperSessions st2)\<rparr>;
          finalRollsCombined = initialRolls_of sessionData @ jackpotRunRollsArray
      in if dbFails then st3\<lparr>console := console st3 @ [Finalize_db_error sessionId]\<rparr>
         else
           (let updateResult = finalize_update finalStatus finalOverallScore finalRollsCombined
                                 outcomeNotesStr sessionId (botUsername st3) now (stored st3);
                st4 = st3\<lparr>stored := fst updateResult\<rparr>
            in if snd updateResult > 0 then
                 (let st5 = st4\<lparr>console := console st4 @ [Db_record_updated sessionId finalStatus]\<rparr>
                  in case sessionData of
                       None \<Rightarrow> st5
                     | Some sd \<Rightarrow>
                         st5\<lparr>outbox := outbox st5 @
                               [Final_message (chat_id sd) sessionId finalOverallScore outcomeNotesStr]\<rparr>)
               else st4\<lparr>console := console st4 @ [Did_not_update sessionId]\<rparr>))"

section \<open>sendJackpotRunUpdate\<close>

text \<open>
  What a rejected promise of the source carries: a \<^verbatim>\<open>ReferenceError\<close> for an identifier
  that is not in scope, or the error \<^verbatim>\<open>BigInt(...)\<close> throws on a value it cannot convert.
\<close>

datatype js_error = ReferenceError string | BigInt_rejects

text \<open>
  \<^verbatim>\<open>sendJackpotRunUpdate(sessionId, lastRollValue)\<close>. The function has no \<^verbatim>\<open>await\<close>, so it
  runs in one piece: return when the session is not in the Map; clear the armed timer;
  build the text (where \<^verbatim>\<open>BigInt(sessionData.jackpot_pool_at_session_start)\<close> may throw,
  after the timer was cleared and before the new one is armed); arm a new timer when
  the status is \<^verbatim>\<open>active_by_helper\<close>; send; store the object back. The object is shared
  with the Map, so the Map sees every assignment at once: the model writes the entry
  back before it throws.
\<close>

definition sendJackpotRunUpdate ::
  "int \<Rightarrow> int option \<Rightarrow> helper_state \<Rightarrow> js_error option \<times> helper_state" where
  "sendJackpotRunUpdate sessionId lastRollValue st =
     (case map_of (activeHelperSessions st) sessionId of
        None \<Rightarrow> (None, st)
      | Some sessionData \<Rightarrow>
          (let st1 = (case turnTimeoutId sessionData of None \<Rightarrow> st | Some t \<Rightarrow> clearTimeout t st);
               sd1 = sessionData\<lparr>turnTimeoutId := None\<rparr>;
               st2 = st1\<lparr>activeHelperSessions := AList.update sessionId sd1 (activeHelperSessions st1)\<rparr>
           in case jackpot_pool_at_session_start sd1 of
                None \<Rightarrow> (Some BigInt_rejects, st2)
              | Some jackpotPool \<Rightarrow>
                  (if status sd1 = active_by_helper then
                     (let armed = setTimeout sessionId st2;
                          sd2 = sd1\<lparr>turnTimeoutId := Some (fst armed)\<rparr>;
                          st3 = snd armed
                      in (None,
                          st3\<lparr>outbox := outbox st3 @ [Run_update (chat_id sd2) sessionId lastRollValue True],
                              activeHelperSessions := AList.update sessionId sd2 (activeHelperSessions st3)\<rparr>))
                   else
                     (None,
                      st2\<lparr>outbox := outbox st2 @ [Run_update (chat_id sd1) sessionId lastRollValue False]\<rparr>))))"

text \<open>
  The \<^verbatim>\<open>catch\<close> of \<^verbatim>\<open>bot.sendMessage\<close> inside \<^verbatim>\<open>sendJackpotRunUpdate\<close>. It runs later, when
  the transport rejects; its closure holds \<open>sessionId\<close> and the object \<open>sessionData\<close>.
  \<open>errorCode\<close> is \<^verbatim>\<open>err.response.body.error_code\<close>, \<open>None\<close> when there is no response.
\<close>

definition sendMessage_rejected ::
  "bool \<Rightarrow> nat \<Rightarrow> int option \<Rightarrow> int \<Rightarrow> session_data \<Rightarrow> helper_state \<Rightarrow> helper_state" where
  "sendMessage_rejected dbFails now errorCode sessionId sessionData st =
     (if errorCode = Some 403 \<or> errorCode = Some 400 then
        finalizeJackpotSession dbFails now sessionId error_sending_message
          (current_total_score sessionData) (jackpot_run_rolls sessionData) Helper_failed_to_send st
      else st)"

section \<open>The dice handler\<close>

text \<open>
  The fields of a Telegram message the handler reads: \<^verbatim>\<open>msg.dice.value\<close> (\<open>None\<close> without
  a dice), \<^verbatim>\<open>msg.from\<close> as the pair of \<^verbatim>\<open>id\<close> and \<^verbatim>\<open>is_bot\<close>, \<^verbatim>\<open>msg.chat.id\<close> and
  \<^verbatim>\<open>msg.message_id\<close>.
\<close>

record message =
  msg_dice :: "int option"
  msg_from :: "(int \<times> bool) option"
  msg_chat :: int
  msg_message_id :: int

text \<open>The condition of the \<^verbatim>\<open>for ... of activeHelperSessions.entries()\<close> scan.\<close>

definition roll_matches :: "int \<Rightarrow> int \<Rightarrow> int \<times> session_data \<Rightarrow> bool" where
  "roll_matches userId chatId e \<longleftrightarrow>
     user_id (snd e) = userId \<and> chat_id (snd e) = chatId \<and> status (snd e) = active_by_helper"

text \<open>
  Lines 243 to 250: disarm the timer of the object, push the roll, add it to the run
  score, recompute the total. Line 250 is \<^verbatim>\<open>sessionDataRef.initial_score +
  sessionDataRef.jackpot_run_score\<close>, with \<^verbatim>\<open>initial_score\<close> as the driver delivered it.
\<close>

definition record_roll :: "int \<Rightarrow> session_data \<Rightarrow> session_data" where
  "record_roll diceValue sd =
     (let sd1 = sd\<lparr>turnTimeoutId := None\<rparr>;
          sd2 = sd1\<lparr>jackpot_run_rolls := jackpot_run_rolls sd1 @ [diceValue]\<rparr>;
          sd3 = sd2\<lparr>jackpot_run_score := jackpot_run_score sd2 + diceValue\<rparr>
      in sd3\<lparr>current_total_score := js_add (initial_score sd3) (jackpot_run_score sd3)\<rparr>)"

text \<open>
  Lines 239 to 250 for the matched entry \<open>found\<close>: log the roll (session id, Telegram user
  id, dice value), delete the player's message, clear the armed timer, and update the
  object, which the Map shares.
\<close>

definition accept_roll ::
  "message \<Rightarrow> int \<Rightarrow> int \<Rightarrow> int \<times> session_data \<Rightarrow> helper_state \<Rightarrow> helper_state" where
  "accept_roll msg userId diceValue found st =
     (let st1 = st\<lparr>console := console st @ [User_rolled (fst found) userId diceValue],
                    outbox := outbox st @ [Delete_message (msg_chat msg) (msg_message_id msg)]\<rparr>;
          st2 = (case turnTimeoutId (snd found) of None \<Rightarrow> st1 | Some t \<Rightarrow> clearTimeout t st1)
      in st2\<lparr>activeHelperSessions :=
               AList.update (fst found) (record_roll diceValue (snd found)) (activeHelperSessions st2)\<rparr>)"

text \<open>
  \<^verbatim>\<open>bot.on('message', ...)\<close>. \<open>dbFails\<close> and \<open>now\<close> are the environment of the finalize call
  the handler may make. The first entry of the Map that matches wins; a session id that
  JavaScript takes for false (\<open>0\<close>) is treated as no match (\<^verbatim>\<open>!activeSessionId\<close>). The bust
  test comes before the target test.
\<close>

definition on_message :: "bool \<Rightarrow> nat \<Rightarrow> message \<Rightarrow> helper_state \<Rightarrow> js_error option \<times> helper_state" where
  "on_message dbFails now msg st =
     (if isShuttingDownHelper st then (None, st)
      else case msg_dice msg of
        None \<Rightarrow> (None, st)
      | Some diceValue \<Rightarrow>
         (case msg_from msg of
            None \<Rightarrow> (None, st)
          | Some sender \<Rightarrow>
             (if snd sender then (None, st)
              else case find (roll_matches (fst sender) (msg_chat msg)) (activeHelperSessions st) of
                None \<Rightarrow> (None, st)
              | Some found \<Rightarrow>
                 (let activeSessionId = fst found
                  in if activeSessionId = 0 then (None, st)
                     else
                      (let st3 = accept_roll msg (fst sender) diceValue found st;
                           sd = record_roll diceValue (snd found)
                       in if diceValue = bust_on_value sd then
                            (None, finalizeJackpotSession dbFails now activeSessionId completed_bust
                                     (current_total_score sd) (jackpot_run_rolls sd)
                                     (Busted_on diceValue) st3)
                          else if js_ge (current_total_score sd) (target_jackpot_score sd) then
                            (None, finalizeJackpotSession dbFails now activeSessionId
                                     completed_target_reached
                                     (current_total_score sd) (jackpot_run_rolls sd)
                                     (Target_reached (target_jackpot_score sd) (current_total_score sd)) st3)
                          else sendJackpotRunUpdate activeSessionId (Some diceValue) st3)))))"

section \<open>The turn timeout\<close>

text \<open>\<^verbatim>\<open>handleJackpotRunTurnTimeout(sessionId)\<close>.\<close>

definition handleJackpotRunTurnTimeout :: "bool \<Rightarrow> nat \<Rightarrow> int \<Rightarrow> helper_state \<Rightarrow> helper_state" where
  "handleJackpotRunTurnTimeout dbFails now sessionId st =
     (case map_of (activeHelperSessions st) sessionId of
        None \<Rightarrow> st
      | Some sessionData \<Rightarrow>
          (if status sessionData \<noteq> active_by_helper then st
           else finalizeJackpotSession dbFails now sessionId completed_timeout_forfeit
                  (current_total_score sessionData) (jackpot_run_rolls sessionData) Turn_timed_out
                  (st\<lparr>console := console st @ [User_timed_out (user_id sessionData)]\<rparr>)))"

text \<open>
  A pending timer fires: it leaves the pending list and its callback runs. A handle
  that is not pending (cleared, or fired already) does nothing.
\<close>

definition timer_fires :: "bool \<Rightarrow> nat \<Rightarrow> nat \<Rightarrow> helper_state \<Rightarrow> helper_state" where
  "timer_fires dbFails now t st =
     (case map_of (timers st) t of
        None \<Rightarrow> st
      | Some sessionId \<Rightarrow>
          handleJackpotRunTurnTimeout dbFails now sessionId
            (st\<lparr>timers := filter (\<lambda>p. fst p \<noteq> t) (timers st)\<rparr>))"

section \<open>checkAndInitiateJackpotSessions\<close>

text \<open>
  What another instance commits: its name, its \<^verbatim>\<open>NOW()\<close> and the session id of its claim
  update. \<open>commit_claims\<close> applies such updates to the table, oldest first.
\<close>

type_synonym claim = "string \<times> nat \<times> int"

definition commit_claims :: "claim list \<Rightarrow> row list \<Rightarrow> row list" where
  "commit_claims cs tbl =
     foldl (\<lambda>t c. fst (claim_update (fst c) (fst (snd c)) (snd (snd c)) t)) tbl cs"

text \<open>
  The environment of one claim attempt: which store call rejects (if any), the rows
  other transactions hold locked when the \<^verbatim>\<open>SELECT\<close> runs, the claims other instances
  commit between the \<^verbatim>\<open>SELECT\<close> and the \<^verbatim>\<open>UPDATE\<close> (the case the comment at lines 124 to
  126 describes), the value of \<^verbatim>\<open>NOW()\<close>, and whether the store call of the finalize after
  a failed first prompt rejects.
\<close>

datatype db_fault = No_fault | Connect_fails | Begin_fails | Select_fails | Update_fails | Commit_fails

record claim_env =
  fault :: db_fault
  locked_rows :: "int list"
  rivals :: "claim list"
  claim_now :: nat
  init_finalize_fails :: bool

text \<open>
  How one pass through the \<^verbatim>\<open>try\<close> block ends:
  \<^item> \<open>Claimed r\<close>: \<^verbatim>\<open>updateRes.rowCount > 0\<close>, the \<^verbatim>\<open>COMMIT\<close> went through and
    \<^verbatim>\<open>claimedSessionData\<close> is \<open>r\<close>, the first returned row;
  \<^item> \<open>No_rows\<close>: the \<^verbatim>\<open>break\<close> of the empty \<^verbatim>\<open>SELECT\<close>;
  \<^item> \<open>Zero_rows sid\<close>: the \<^verbatim>\<open>UPDATE\<close> of session \<open>sid\<close> touched no row (the \<^verbatim>\<open>else\<close> branch of
    line 123), \<^verbatim>\<open>claimedSessionData\<close> is still \<^verbatim>\<open>null\<close>;
  \<^item> \<open>Rolled_back\<close>: a store call rejected and the \<^verbatim>\<open>catch\<close> rolled back,
    \<^verbatim>\<open>claimedSessionData\<close> is still \<^verbatim>\<open>null\<close>.
\<close>

datatype attempt_result = Claimed row | No_rows | Zero_rows int | Rolled_back

text \<open>
  The \<^verbatim>\<open>try\<close>/\<^verbatim>\<open>catch\<close>/\<^verbatim>\<open>finally\<close> of one loop pass (lines 89 to 140). The \<^verbatim>\<open>SELECT\<close> reads
  the table as it is when the pass starts; the \<^verbatim>\<open>UPDATE\<close> runs on the table with what
  others committed since. The transaction's own writes reach the table only with its
  \<^verbatim>\<open>COMMIT\<close>: a \<^verbatim>\<open>COMMIT\<close> that rejects after the \<^verbatim>\<open>UPDATE\<close> returned a row leaves the row
  unclaimed.
\<close>

definition claim_attempt :: "claim_env \<Rightarrow> helper_state \<Rightarrow> attempt_result \<times> helper_state" where
  "claim_attempt env st =
     (if fault env = Connect_fails \<or> fault env = Begin_fails \<or> fault env = Select_fails then
        (Rolled_back, st\<lparr>console := console st @ [Claim_db_error]\<rparr>)
      else case select_pending (locked_rows env) (stored st) of
        None \<Rightarrow>
          (if fault env = Commit_fails then
             (Rolled_back, st\<lparr>console := console st @ [Claim_db_error]\<rparr>)
           else (No_rows, st))
      | Some sessionToClaim \<Rightarrow>
          (let st1 = st\<lparr>stored := commit_claims (rivals env) (stored st)\<rparr>
           in if fault env = Update_fails then
                (Rolled_back, st1\<lparr>console := console st1 @ [Claim_db_error]\<rparr>)
              else
                (let updateRes = claim_update (botUsername st1) (claim_now env)
                                   (session_id sessionToClaim) (stored st1)
                 in case snd updateRes of
                      [] \<Rightarrow>
                        (Zero_rows (session_id sessionToClaim),
                         st1\<lparr>console := console st1 @ [Failed_to_claim (session_id sessionToClaim)]\<rparr>)
                    | claimedRow # _ \<Rightarrow>
                        (if fault env = Commit_fails then
                           (Rolled_back, st1\<lparr>console := console st1 @ [Claim_db_error]\<rparr>)
                         else
                           (Claimed claimedRow,
                            st1\<lparr>stored := fst updateRes,
                                console := console st1 @ [Session_claimed (session_id sessionToClaim)]\<rparr>)))))"

text \<open>
  The object stored for a claimed row (lines 145 to 152): \<^verbatim>\<open>current_total_score\<close> is
  \<^verbatim>\<open>parseInt(claimedSessionData.initial_score, 10)\<close>, a number, while the spread keeps
  \<^verbatim>\<open>initial_score\<close> as the driver delivered it.
\<close>

definition new_session_data :: "row \<Rightarrow> session_data" where
  "new_session_data r =
     \<lparr>session_id = session_id r, status = status r, helper_bot_id = helper_bot_id r,
      user_id = user_id r, chat_id = chat_id r, initial_score = initial_score r,
      initial_rolls_json = initial_rolls_json r, target_jackpot_score = target_jackpot_score r,
      bust_on_value = bust_on_value r,
      jackpot_pool_at_session_start = jackpot_pool_at_session_start r,
      final_score = final_score r, final_rolls_json = final_rolls_json r,
      outcome_notes = outcome_notes r, created_at = created_at r, updated_at = updated_at r,
      jackpot_run_rolls = [], jackpot_run_score = 0,
      current_total_score = Num (parseInt10 (initial_score r)),
      turnTimeoutId = None,
      initial_rolls_parsed = (case initial_rolls_json r of None \<Rightarrow> [] | Some xs \<Rightarrow> xs)\<rparr>"

text \<open>
  Lines 142 to 163: store the claimed session and send the first prompt. When
  \<^verbatim>\<open>sendJackpotRunUpdate\<close> rejects, its \<^verbatim>\<open>catch\<close> finalizes the session with
  \<^verbatim>\<open>error_helper_init_prompt\<close>, \<^verbatim>\<open>parseInt(claimedSessionData.initial_score, 10)\<close> and no run
  rolls.
\<close>

definition initiate_session :: "claim_env \<Rightarrow> row \<Rightarrow> helper_state \<Rightarrow> helper_state" where
  "initiate_session env claimedSessionData st =
     (let st1 = st\<lparr>activeHelperSessions :=
                    AList.update (session_id claimedSessionData) (new_session_data claimedSessionData)
                      (activeHelperSessions st)\<rparr>;
          sent = sendJackpotRunUpdate (session_id claimedSessionData) None st1
      in case fst sent of
           None \<Rightarrow> snd sent
         | Some sendErr \<Rightarrow>
             finalizeJackpotSession (init_finalize_fails env) (claim_now env)
               (session_id claimedSessionData) error_helper_init_prompt
               (Num (parseInt10 (initial_score claimedSessionData))) [] Failed_initial_prompt
               ((snd sent)\<lparr>console := console (snd sent) @
                              [Init_prompt_error (session_id claimedSessionData)]\<rparr>))"

text \<open>
  The \<^verbatim>\<open>for\<close> loop (lines 79 to 170): \<open>n\<close> is \<^verbatim>\<open>sessionsToAttemptToClaim\<close>, \<open>i\<close> the loop
  counter, \<open>k\<close> the passes left (\<open>n - i\<close>), \<open>envs i\<close> the environment of pass \<open>i\<close>.
  After a pass that claimed nothing the source evaluates \<^verbatim>\<open>selectRes\<close> at line 164,
  outside the \<^verbatim>\<open>try\<close> block that declares it with \<^verbatim>\<open>const\<close>: a \<^verbatim>\<open>ReferenceError\<close>. At line
  169 it calls \<^verbatim>\<open>sleep\<close>, which this file neither defines nor imports: a
  \<^verbatim>\<open>ReferenceError\<close> again, whenever another pass would follow.
\<close>

fun claim_loop ::
  "(nat \<Rightarrow> claim_env) \<Rightarrow> nat \<Rightarrow> nat \<Rightarrow> nat \<Rightarrow> helper_state \<Rightarrow> js_error option \<times> helper_state" where
  "claim_loop envs n i 0 st = (None, st)"
| "claim_loop envs n i (Suc k) st =
     (if isShuttingDownHelper st then (None, st)
      else case claim_attempt (envs i) st of
        (No_rows, st1) \<Rightarrow> (None, st1)
      | (Claimed claimedSessionData, st1) \<Rightarrow>
          (let st2 = initiate_session (envs i) claimedSessionData st1
           in if n > 1 \<and> i < n - 1 then (Some (ReferenceError ''sleep''), st2)
              else claim_loop envs n (Suc i) k st2)
      | (Zero_rows sid, st1) \<Rightarrow> (Some (ReferenceError ''selectRes''), st1)
      | (Rolled_back, st1) \<Rightarrow> (Some (ReferenceError ''selectRes''), st1))"

text \<open>
  \<^verbatim>\<open>checkAndInitiateJackpotSessions()\<close>, with \<^verbatim>\<open>MAX_SESSIONS_PER_CYCLE\<close> as a parameter. The
  result is the error the returned promise rejects with (if any) and the state.
\<close>

definition checkAndInitiateJackpotSessions ::
  "int \<Rightarrow> (nat \<Rightarrow> claim_env) \<Rightarrow> helper_state \<Rightarrow> js_error option \<times> helper_state" where
  "checkAndInitiateJackpotSessions maxSessionsPerCycle envs st =
     (if isShuttingDownHelper st then (None, st)
      else
        (let activeSessionCount = int (length (activeHelperSessions st));
             maxConcurrentSessionsThisHelper = maxSessionsPerCycle
         in if activeSessionCount \<ge> maxConcurrentSessionsThisHelper then (None, st)
            else
              (let sessionsToAttemptToClaim = maxConcurrentSessionsThisHelper - activeSessionCount
               in if sessionsToAttemptToClaim \<le> 0 then (None, st)
                  else claim_loop envs (nat sessionsToAttemptToClaim) 0
                         (nat sessionsToAttemptToClaim) st)))"

section \<open>Claim attempts of several instances on one table\<close>

text \<open>
  Several instances, this one and others, run the loop pass above against the one table,
  at the same time. Each pass is a transaction of two statements. The store is taken to
  serialise the writers of one row, as the row locks of PostgreSQL do: the \<^verbatim>\<open>UPDATE\<close> of a
  pass evaluates its \<^verbatim>\<open>WHERE\<close> clause on the committed rows, and its \<^verbatim>\<open>COMMIT\<close> follows
  before any other writer of these rows. So the passes can be put in the order of their
  \<^verbatim>\<open>UPDATE\<close> statements, and the concurrency that remains is that the \<^verbatim>\<open>SELECT\<close> of a pass ran
  earlier, on an older table: the claims committed after it are the ones the pass missed.

  The world keeps the table the first pass started on, the claims committed since (oldest
  first), the table as it is now, and how every finished pass ended, under the name of its
  instance.
\<close>

record world =
  table0 :: "row list"
  commits :: "claim list"
  table :: "row list"
  results :: "(string \<times> attempt_result) list"

text \<open>
  The table as it was before the last \<open>m\<close> commits, and these commits. With \<open>m = 0\<close> the
  pass runs alone; with \<open>m\<close> at least the number of commits its \<^verbatim>\<open>SELECT\<close> read the first
  table.
\<close>

definition snapshot :: "nat \<Rightarrow> world \<Rightarrow> row list" where
  "snapshot m w = commit_claims (take (length (commits w) - m) (commits w)) (table0 w)"

definition missed :: "nat \<Rightarrow> world \<Rightarrow> claim list" where
  "missed m w = drop (length (commits w) - m) (commits w)"

text \<open>
  One pass in the world: the memory \<open>st\<close> of the instance that runs it (any state of any
  instance; its view of the table is replaced by the shared one), the number \<open>m\<close> of
  commits its \<^verbatim>\<open>SELECT\<close> missed, and the environment of its store calls (whose \<open>rivals\<close> are
  replaced by the missed commits). The pass is \<open>claim_attempt\<close> itself. When it ends with a
  claim, the table it wrote becomes the shared table, and the claim is added to the
  commits; otherwise the table stays.
\<close>

type_synonym attempt = "helper_state \<times> nat \<times> claim_env"

definition world_step :: "world \<Rightarrow> attempt \<Rightarrow> world" where
  "world_step w a =
     (let st = fst a; m = fst (snd a); env = snd (snd a);
          pass = claim_attempt (env\<lparr>rivals := missed m w\<rparr>) (st\<lparr>stored := snapshot m w\<rparr>)
      in case fst pass of
           Claimed claimedSessionData \<Rightarrow>
             w\<lparr>commits := commits w @
                            [(botUsername st, claim_now env, session_id claimedSessionData)],
               table := stored (snd pass),
               results := results w @ [(botUsername st, fst pass)]\<rparr>
         | _ \<Rightarrow> w\<lparr>results := results w @ [(botUsername st, fst pass)]\<rparr>)"

definition run_attempts :: "row list \<Rightarrow> attempt list \<Rightarrow> world" where
  "run_attempts tbl as =
     foldl world_step \<lparr>table0 = tbl, commits = [], table = tbl, results = []\<rparr> as"

section \<open>Runs of one helper\<close>

text \<open>
  The helper is a single event loop. What reaches it: the polling interval fires, a
  message arrives, a timer fires, the transport rejects a run update that was sent
  earlier, and, outside the helper, the main bot enqueues a new pending row under a
  session id the table does not have yet. Every event carries the environment of
  the store calls its handler makes. A handler runs to its end before the next event:
  each handler of the source changes the Map and the timers in one synchronous stretch,
  and what it does after an \<^verbatim>\<open>await\<close> is a store call on the rows of its own session,
  a log line or a message.
\<close>

datatype event =
    Poll int "nat \<Rightarrow> claim_env"
      \<comment> \<open>\<^verbatim>\<open>MAX_SESSIONS_PER_CYCLE\<close>, the environment of every loop pass\<close>
  | Dice bool nat message
  | Timeout bool nat nat
      \<comment> \<open>whether the store call rejects, \<^verbatim>\<open>NOW()\<close>, the timer handle\<close>
  | Send_failed bool nat "int option" int session_data
      \<comment> \<open>the error code and what the closure of the \<^verbatim>\<open>catch\<close> holds\<close>
  | Enqueue row

definition enqueue :: "row \<Rightarrow> helper_state \<Rightarrow> helper_state" where
  "enqueue r st =
     (if status r = pending_pickup \<and> session_id r \<notin> set (map session_id (stored st))
      then st\<lparr>stored := stored st @ [r]\<rparr> else st)"

fun apply_event :: "helper_state \<Rightarrow> event \<Rightarrow> helper_state" where
  "apply_event st (Poll maxSessionsPerCycle envs) =
     snd (checkAndInitiateJackpotSessions maxSessionsPerCycle envs st)"
| "apply_event st (Dice dbFails now msg) = snd (on_message dbFails now msg st)"
| "apply_event st (Timeout dbFails now t) = timer_fires dbFails now t st"
| "apply_event st (Send_failed dbFails now errorCode sessionId sessionData) =
     sendMessage_rejected dbFails now errorCode sessionId sessionData st"
| "apply_event st (Enqueue r) = enqueue r st"

text \<open>The helper right after start: nothing in memory, no timer, some table.\<close>

definition initial_state :: "string \<Rightarrow> row list \<Rightarrow> helper_state" where
  "initial_state botName tbl =
     \<lparr>activeHelperSessions = [], stored = tbl, timers = [], next_timer = 0, outbox = [],
      console = [], isShuttingDownHelper = False, botUsername = botName\<rparr>"

definition run_events :: "helper_state \<Rightarrow> event list \<Rightarrow> helper_state" where
  "run_events st evs = foldl apply_event st evs"

text \<open>
  What holds of the memory of a helper between two events:
  \<^item> the keys of the Map are distinct;
  \<^item> every session in the Map is \<^verbatim>\<open>active_by_helper\<close>, has a pool value \<^verbatim>\<open>BigInt\<close> accepts,
    has scores that agree with its rolls (the run score is their sum; the total is the
    parsed initial score before the first roll and the value of line 250 after it), and
    has its armed timer pending;
  \<^item> timer handles are distinct and were handed out; each pending timer is the armed
    timer of a session in the Map;
  \<^item> the rows of a session in the Map exist and none of them is pending.
\<close>

definition scores_consistent :: "session_data \<Rightarrow> bool" where
  "scores_consistent sd \<longleftrightarrow>
     jackpot_run_score sd = sum_list (jackpot_run_rolls sd) \<and>
     current_total_score sd =
       (if jackpot_run_rolls sd = [] then Num (parseInt10 (initial_score sd))
        else js_add (initial_score sd) (jackpot_run_score sd))"

definition session_ok :: "helper_state \<Rightarrow> int \<times> session_data \<Rightarrow> bool" where
  "session_ok st e \<longleftrightarrow>
     status (snd e) = active_by_helper \<and>
     jackpot_pool_at_session_start (snd e) \<noteq> None \<and>
     scores_consistent (snd e) \<and>
     (case turnTimeoutId (snd e) of None \<Rightarrow> False | Some t \<Rightarrow> (t, fst e) \<in> set (timers st)) \<and>
     fst e \<in> set (map session_id (stored st)) \<and>
     list_all (\<lambda>r. session_id r = fst e \<longrightarrow> status r \<noteq> pending_pickup) (stored st)"

definition timer_ok :: "helper_state \<Rightarrow> nat \<times> int \<Rightarrow> bool" where
  "timer_ok st p \<longleftrightarrow>
     fst p < next_timer st \<and>
     (case map_of (activeHelperSessions st) (snd p) of
        None \<Rightarrow> False
      | Some sd \<Rightarrow> turnTimeoutId sd = Some (fst p))"

definition helper_inv :: "helper_state \<Rightarrow> bool" where
  "helper_inv st \<longleftrightarrow>
     distinct (map fst (activeHelperSessions st)) \<and>
     list_all (session_ok st) (activeHelperSessions st) \<and>
     distinct (map fst (timers st)) \<and>
     list_all (timer_ok st) (timers st)"

section \<open>Concrete sessions\<close>

text \<open>
  A pending row: player 5 in chat 9 enters the run with score 7 from the rolls 3 and 4,
  the target is 20, a roll of 1 busts. The driver delivers the score as a number. A second pending row of another player, enqueued
  later.
\<close>

definition ex_row :: row where
  "ex_row = \<lparr>session_id = 1, status = pending_pickup, helper_bot_id = None, user_id = 5,
     chat_id = 9, initial_score = As_number 7, initial_rolls_json = Some [3, 4], target_jackpot_score = 20,
     bust_on_value = 1, jackpot_pool_at_session_start = Some 2500000000, final_score = None,
     final_rolls_json = None, outcome_notes = None, created_at = 0, updated_at = 0\<rparr>"

definition ex_row2 :: row where
  "ex_row2 = ex_row\<lparr>session_id := 2, user_id := 6, created_at := 1\<rparr>"

text \<open>
  The same row when the driver hands the score over as the string \<^verbatim>\<open>"7"\<close>, the case lines
  149 and 161 parse for; and that row with a target of 100.
\<close>

definition ex_row_text :: row where
  "ex_row_text = ex_row\<lparr>initial_score := As_text 7\<rparr>"

definition ex_row_text_far :: row where
  "ex_row_text_far = ex_row_text\<lparr>target_jackpot_score := 100\<rparr>"

text \<open>A loop pass in which every store call succeeds and nobody interferes.\<close>

definition ex_env :: claim_env where
  "ex_env = \<lparr>fault = No_fault, locked_rows = [], rivals = [], claim_now = 10,
     init_finalize_fails = False\<rparr>"

text \<open>
  Four passes of three instances on the two pending rows: \<open>g\<close> claims; \<open>h\<close>, whose
  \<^verbatim>\<open>SELECT\<close> ran before the commit of \<open>g\<close>, updates the same row; the \<^verbatim>\<open>COMMIT\<close> of the next
  pass of \<open>h\<close> rejects; \<open>k\<close> claims.
\<close>

definition ex_attempts :: "attempt list" where
  "ex_attempts =
     [(initial_state ''g'' [], 0, ex_env),
      (initial_state ''h'' [], 1, ex_env\<lparr>claim_now := 11\<rparr>),
      (initial_state ''h'' [], 0, ex_env\<lparr>fault := Commit_fails, claim_now := 12\<rparr>),
      (initial_state ''k'' [], 0, ex_env\<lparr>claim_now := 13\<rparr>)]"

text \<open>A dice message of player 5 in chat 9.\<close>

definition ex_dice :: "int \<Rightarrow> message" where
  "ex_dice v = \<lparr>msg_dice = Some v, msg_from = Some (5, False), msg_chat = 9, msg_message_id = 70\<rparr>"

text \<open>The helper \<open>h\<close> after it claimed \<open>ex_row\<close> and sent the first prompt.\<close>

definition ex_claimed :: helper_state where
  "ex_claimed = run_events (initial_state ''h'' [ex_row]) [Poll 1 (\<lambda>i. ex_env)]"

text \<open>The helper \<open>h\<close> with nothing in memory and a row it finalized as a bust earlier.\<close>

definition ex_finalized :: helper_state where
  "ex_finalized =
     initial_state ''h''
       [ex_row\<lparr>status := completed_bust, helper_bot_id := Some ''h'', final_score := Some (Num 8),
               final_rolls_json := Some [3, 4, 1], outcome_notes := Some (Busted_on 1)\<rparr>]"

text \<open>The object of that session in the Map of \<open>ex_claimed\<close>: timer 0 is armed.\<close>

definition ex_session :: session_data where
  "ex_session =
     (new_session_data (ex_row\<lparr>status := active_by_helper, helper_bot_id := Some ''h'',
                               updated_at := 10\<rparr>))\<lparr>turnTimeoutId := Some 0\<rparr>"

text \<open>The same claim when the target is 8: one more point reaches it.\<close>

definition ex_near_target :: helper_state where
  "ex_near_target =
     run_events (initial_state ''h'' [ex_row\<lparr>target_jackpot_score := 8\<rparr>]) [Poll 1 (\<lambda>i. ex_env)]"

section \<open>Notions the properties are stated with\<close>

text \<open>The initial rolls of a session followed by the rolls of its run.\<close>

definition combined_rolls :: "session_data \<Rightarrow> int list" where
  "combined_rolls sd =
     (case initial_rolls_json sd of None \<Rightarrow> [] | Some xs \<Rightarrow> xs) @ jackpot_run_rolls sd"

text \<open>
  Some row of the session is \<^verbatim>\<open>active_by_helper\<close> or carries the name of this helper: the
  \<^verbatim>\<open>WHERE\<close> clause of the finalize update holds for it.
\<close>

definition write_takes_effect :: "int \<Rightarrow> helper_state \<Rightarrow> bool" where
  "write_takes_effect sessionId st \<longleftrightarrow>
     list_ex (\<lambda>r. session_id r = sessionId \<and>
                  (status r = active_by_helper \<or> helper_bot_id r = Some (botUsername st)))
       (stored st)"

text \<open>Some row of session \<open>s\<close> is pending: the \<^verbatim>\<open>WHERE\<close> clause of the claim update holds for it.\<close>

definition pending_row :: "int \<Rightarrow> row list \<Rightarrow> bool" where
  "pending_row s tbl \<longleftrightarrow> list_ex (claim_matches s) tbl"

text \<open>
  Of the passes of a world: those that ended with session \<open>s\<close> as their
  \<^verbatim>\<open>claimedSessionData\<close> (\<open>winners\<close>), and those whose \<^verbatim>\<open>UPDATE\<close> of \<open>s\<close> touched no row
  (\<open>losers\<close>).
\<close>

fun claimed_session :: "attempt_result \<Rightarrow> int option" where
  "claimed_session (Claimed claimedSessionData) = Some (session_id claimedSessionData)"
| "claimed_session _ = None"

definition winners :: "int \<Rightarrow> world \<Rightarrow> (string \<times> attempt_result) list" where
  "winners s w = filter (\<lambda>e. claimed_session (snd e) = Some s) (results w)"

definition losers :: "int \<Rightarrow> world \<Rightarrow> (string \<times> attempt_result) list" where
  "losers s w = filter (\<lambda>e. snd e = Zero_rows s) (results w)"

text \<open>
  The row a pass received is in the shared table, \<^verbatim>\<open>active_by_helper\<close> and under the name
  of the instance that ran the pass.
\<close>

definition holds_claim :: "world \<Rightarrow> string \<times> attempt_result \<Rightarrow> bool" where
  "holds_claim w e \<longleftrightarrow>
     (case snd e of
        Claimed claimedSessionData \<Rightarrow>
          status claimedSessionData = active_by_helper \<and>
          helper_bot_id claimedSessionData = Some (fst e) \<and>
          claimedSessionData \<in> set (table w)
      | _ \<Rightarrow> True)"

text \<open>
  The session a commit claimed, and what the passes of a world keep true from their first
  table on: the shared table is the first table with the commits applied; the commits are
  the claims of the passes that ended with one, in order; no session was claimed twice;
  a claimed session was pending in the first table; a pass that saw zero rows lost
  its session to a commit; and every received row is held.
\<close>

definition claim_session :: "claim \<Rightarrow> int" where
  "claim_session c = snd (snd c)"

definition world_inv :: "world \<Rightarrow> bool" where
  "world_inv w \<longleftrightarrow>
     table w = commit_claims (commits w) (table0 w) \<and>
     map claim_session (commits w) = List.map_filter (\<lambda>e. claimed_session (snd e)) (results w) \<and>
     distinct (map claim_session (commits w)) \<and>
     (\<forall>c \<in> set (commits w). pending_row (claim_session c) (table0 w)) \<and>
     (\<forall>e \<in> set (results w). \<forall>s. snd e = Zero_rows s \<longrightarrow> s \<in> claim_session ` set (commits w)) \<and>
     list_all (holds_claim w) (results w)"

text \<open>
  The state in the middle of a handler that works on session \<open>sid\<close>: everything is as
  between two events, except that \<open>sid\<close> itself need not have its timer pending; the
  handle its object holds, if it is still pending, is a timer of \<open>sid\<close>.
\<close>

definition inv_except :: "int \<Rightarrow> helper_state \<Rightarrow> bool" where
  "inv_except sid st \<longleftrightarrow>
     distinct (map fst (activeHelperSessions st)) \<and>
     (\<forall>k sd. map_of (activeHelperSessions st) k = Some sd \<and> k \<noteq> sid \<longrightarrow> session_ok st (k, sd)) \<and>
     distinct (map fst (timers st)) \<and>
     (\<forall>p \<in> set (timers st). timer_ok st p) \<and>
     (\<forall>sd t. map_of (activeHelperSessions st) sid = Some sd \<and> turnTimeoutId sd = Some t \<longrightarrow>
        (\<forall>p \<in> set (timers st). fst p = t \<longrightarrow> snd p = sid))"

text \<open>What a session in the Map satisfies apart from its timer.\<close>

definition session_core :: "helper_state \<Rightarrow> int \<times> session_data \<Rightarrow> bool" where
  "session_core st e \<longleftrightarrow>
     status (snd e) = active_by_helper \<and>
     jackpot_pool_at_session_start (snd e) \<noteq> None \<and>
     scores_consistent (snd e) \<and>
     fst e \<in> set (map session_id (stored st)) \<and>
     list_all (\<lambda>r. session_id r = fst e \<longrightarrow> status r \<noteq> pending_pickup) (stored st)"

text \<open>A table that claim updates produced from another one.\<close>

definition claim_evolved :: "row list \<Rightarrow> row list \<Rightarrow> bool" where
  "claim_evolved tbl tbl' \<longleftrightarrow>
     session_id ` set tbl' = session_id ` set tbl \<and>
     (\<forall>k. pending_row k tbl' \<longrightarrow> pending_row k tbl)"

section \<open>Evaluating the concrete sessions\<close>

lemmas eval_defs =
  run_events_def initial_state_def checkAndInitiateJackpotSessions_def claim_attempt_def
  select_pending_def claim_update_def claim_matches_def claim_set_def initiate_session_def
  new_session_data_def sendJackpotRunUpdate_def setTimeout_def clearTimeout_def
  finalizeJackpotSession_def finalize_update_def finalize_matches_def finalize_set_def
  initialRolls_of_def on_message_def accept_roll_def record_roll_def roll_matches_def
  handleJackpotRunTurnTimeout_def timer_fires_def sendMessage_rejected_def enqueue_def
  commit_claims_def parseInt10_def js_add_def decimal_def digits.simps digit_char_def
  js_ge_def ToNumber_def digit_val_def
  world_step_def run_attempts_def snapshot_def missed_def
  ex_row_def ex_row2_def ex_attempts_def ex_row_text_def ex_row_text_far_def ex_env_def ex_dice_def Let_def

lemma ex_claimed_eq:
  "ex_claimed =
     \<lparr>activeHelperSessions =
        [(1, \<lparr>session_id = 1, status = active_by_helper, helper_bot_id = Some ''h'', user_id = 5,
              chat_id = 9, initial_score = As_number 7, initial_rolls_json = Some [3, 4],
              target_jackpot_score = 20, bust_on_value = 1,
              jackpot_pool_at_session_start = Some 2500000000, final_score = None,
              final_rolls_json = None, outcome_notes = None, created_at = 0, updated_at = 10,
              jackpot_run_rolls = [], jackpot_run_score = 0, current_total_score = Num 7,
              turnTimeoutId = Some 0, initial_rolls_parsed = [3, 4]\<rparr>)],
      stored = [ex_row\<lparr>status := active_by_helper, helper_bot_id := Some ''h'', updated_at := 10\<rparr>],
      timers = [(0, 1)], next_timer = 1, outbox = [Run_update 9 1 None True],
      console = [Session_claimed 1], isShuttingDownHelper = False, botUsername = ''h''\<rparr>"
  by (simp add: ex_claimed_def eval_defs)

lemma ex_claimed_session: "map_of (activeHelperSessions ex_claimed) 1 = Some ex_session"
  by (simp add: ex_claimed_eq ex_session_def new_session_data_def ex_row_def parseInt10_def)

section \<open>Facts about the Map and about finalizeJackpotSession\<close>

lemma delete_absent: "map_of al k = None \<Longrightarrow> AList.delete k al = al"
  by (simp add: map_of_eq_None_iff)

lemma map_of_delete_same: "map_of (AList.delete k al) k = None"
  by (simp add: delete_conv')

lemma delete_keys_subset: "fst ` set (AList.delete a al) \<subseteq> fst ` set al"
  by (auto simp: AList.delete_eq)

lemma find_delete_None:
  assumes "\<forall>e \<in> set al. P e \<longrightarrow> fst e = k"
  shows "find P (AList.delete k al) = None"
  using assms by (auto simp: find_None_iff AList.delete_eq)

lemma find_in_Map:
  assumes "distinct (map fst al)" and "find P al = Some (k, v)"
  shows "map_of al k = Some v"
proof -
  from assms(2) have "(k, v) \<in> set al" by (auto simp: find_Some_iff)
  with assms(1) show ?thesis by simp
qed

lemma fin_active:
  "activeHelperSessions (finalizeJackpotSession dbFails now sid fs sc rolls note st) =
     AList.delete sid (activeHelperSessions st)"
  by (simp add: finalizeJackpotSession_def Let_def clearTimeout_def split: option.splits)

lemma fin_timers:
  "timers (finalizeJackpotSession dbFails now sid fs sc rolls note st) =
     (case map_of (activeHelperSessions st) sid of
        None \<Rightarrow> timers st
      | Some sd \<Rightarrow> (case turnTimeoutId sd of
                     None \<Rightarrow> timers st
                   | Some t \<Rightarrow> filter (\<lambda>p. fst p \<noteq> t) (timers st)))"
  by (simp add: finalizeJackpotSession_def Let_def clearTimeout_def split: option.splits)

lemma fin_unchanged:
  "next_timer (finalizeJackpotSession dbFails now sid fs sc rolls note st) = next_timer st"
  "botUsername (finalizeJackpotSession dbFails now sid fs sc rolls note st) = botUsername st"
  "isShuttingDownHelper (finalizeJackpotSession dbFails now sid fs sc rolls note st) =
     isShuttingDownHelper st"
  by (simp_all add: finalizeJackpotSession_def Let_def clearTimeout_def split: option.splits)

lemma fin_stored:
  "stored (finalizeJackpotSession dbFails now sid fs sc rolls note st) =
     (if dbFails then stored st
      else fst (finalize_update fs sc (initialRolls_of (map_of (activeHelperSessions st) sid) @ rolls)
                  note sid (botUsername st) now (stored st)))"
  by (simp add: finalizeJackpotSession_def Let_def clearTimeout_def split: option.splits)

lemma fin_outbox:
  "outbox (finalizeJackpotSession dbFails now sid fs sc rolls note st) =
     outbox st @
     (if \<not> dbFails \<and>
         snd (finalize_update fs sc (initialRolls_of (map_of (activeHelperSessions st) sid) @ rolls)
                note sid (botUsername st) now (stored st)) > 0
      then (case map_of (activeHelperSessions st) sid of
              None \<Rightarrow> []
            | Some sd \<Rightarrow> [Final_message (chat_id sd) sid sc note])
      else [])"
  by (simp add: finalizeJackpotSession_def Let_def clearTimeout_def split: option.splits)

lemma fin_console:
  "console (finalizeJackpotSession dbFails now sid fs sc rolls note st) =
     console st @
     (case map_of (activeHelperSessions st) sid of
        None \<Rightarrow> [No_session_in_memory sid] | Some sd \<Rightarrow> []) @
     [if dbFails then Finalize_db_error sid
      else if snd (finalize_update fs sc (initialRolls_of (map_of (activeHelperSessions st) sid) @ rolls)
                note sid (botUsername st) now (stored st)) > 0
           then Db_record_updated sid fs else Did_not_update sid]"
  by (simp add: finalizeJackpotSession_def Let_def clearTimeout_def split: option.splits)

lemma finalize_update_count:
  "snd (finalize_update fs sc rolls note sid botName now tbl) > 0 \<longleftrightarrow>
     (\<exists>r \<in> set tbl. finalize_matches sid botName r)"
  by (auto simp: finalize_update_def filter_empty_conv)

lemma finalize_update_noop:
  "\<forall>r \<in> set tbl. \<not> finalize_matches sid botName r \<Longrightarrow>
     fst (finalize_update fs sc rolls note sid botName now tbl) = tbl"
  by (simp add: finalize_update_def map_idI)

lemma finalize_set_fields:
  "session_id (finalize_set fs sc rolls outcome now r) = session_id r"
  "status (finalize_set fs sc rolls outcome now r) = fs"
  by (simp_all add: finalize_set_def)

lemma finalize_update_ids:
  "map session_id (fst (finalize_update fs sc rolls outcome sid botName now tbl)) = map session_id tbl"
  unfolding finalize_update_def fst_conv
  by (induction tbl) (simp_all add: finalize_set_fields)

lemma finalize_update_idset:
  "session_id ` set (fst (finalize_update fs sc rolls outcome sid botName now tbl)) =
   session_id ` set tbl"
  using finalize_update_ids [of fs sc rolls outcome sid botName now tbl]
  by (metis set_map)

lemma finalize_update_not_pending:
  assumes "fs \<noteq> pending_pickup"
    and "list_all (\<lambda>r. session_id r = k \<longrightarrow> status r \<noteq> pending_pickup) tbl"
  shows "list_all (\<lambda>r. session_id r = k \<longrightarrow> status r \<noteq> pending_pickup)
           (fst (finalize_update fs sc rolls outcome sid botName now tbl))"
  using assms unfolding finalize_update_def fst_conv
  by (induction tbl) (simp_all add: finalize_set_fields)

section \<open>Facts about the dice handler\<close>

lemma record_roll_fields:
  "jackpot_run_rolls (record_roll v sd) = jackpot_run_rolls sd @ [v]"
  "jackpot_run_score (record_roll v sd) = jackpot_run_score sd + v"
  "current_total_score (record_roll v sd) = js_add (initial_score sd) (jackpot_run_score sd + v)"
  "turnTimeoutId (record_roll v sd) = None"
  "initial_rolls_json (record_roll v sd) = initial_rolls_json sd"
  "initial_score (record_roll v sd) = initial_score sd"
  "bust_on_value (record_roll v sd) = bust_on_value sd"
  "target_jackpot_score (record_roll v sd) = target_jackpot_score sd"
  "status (record_roll v sd) = status sd"
  "chat_id (record_roll v sd) = chat_id sd"
  "user_id (record_roll v sd) = user_id sd"
  "jackpot_pool_at_session_start (record_roll v sd) = jackpot_pool_at_session_start sd"
  by (simp_all add: record_roll_def Let_def)

lemma accept_roll_fields:
  "activeHelperSessions (accept_roll msg userId v found st) =
     AList.update (fst found) (record_roll v (snd found)) (activeHelperSessions st)"
  "stored (accept_roll msg userId v found st) = stored st"
  "botUsername (accept_roll msg userId v found st) = botUsername st"
  "next_timer (accept_roll msg userId v found st) = next_timer st"
  "isShuttingDownHelper (accept_roll msg userId v found st) = isShuttingDownHelper st"
  "timers (accept_roll msg userId v found st) =
     (case turnTimeoutId (snd found) of
        None \<Rightarrow> timers st | Some t \<Rightarrow> filter (\<lambda>p. fst p \<noteq> t) (timers st))"
  "outbox (accept_roll msg userId v found st) =
     outbox st @ [Delete_message (msg_chat msg) (msg_message_id msg)]"
  "console (accept_roll msg userId v found st) = console st @ [User_rolled (fst found) userId v]"
  by (simp_all add: accept_roll_def Let_def clearTimeout_def split: option.splits)

lemma accept_roll_keys:
  assumes "find P (activeHelperSessions st) = Some found"
  shows "fst ` set (activeHelperSessions (accept_roll msg userId v found st)) =
         fst ` set (activeHelperSessions st)"
proof -
  from assms have "found \<in> set (activeHelperSessions st)"
    by (auto simp: find_Some_iff)
  then have "fst found \<in> fst ` set (activeHelperSessions st)" by simp
  then show ?thesis by (auto simp: accept_roll_fields dom_update)
qed

lemma initialRolls_combined:
  "initialRolls_of (Some sd) @ jackpot_run_rolls sd = combined_rolls sd"
  by (simp add: initialRolls_of_def combined_rolls_def)

lemma initialRolls_record_roll:
  "initialRolls_of (Some (record_roll v sd)) = initialRolls_of (Some sd)"
  by (simp add: initialRolls_of_def record_roll_fields)

lemma initialRolls_combined_app:
  "initialRolls_of (Some sd) @ jackpot_run_rolls sd @ ys = combined_rolls sd @ ys"
  by (simp add: initialRolls_of_def combined_rolls_def)

lemma combined_rolls_record_roll:
  "combined_rolls (record_roll v sd) = combined_rolls sd @ [v]"
  by (simp add: combined_rolls_def record_roll_fields)

lemma sjru_error_fields:
  assumes "map_of (activeHelperSessions st) sid = Some sd" "jackpot_pool_at_session_start sd = None"
  shows "fst (sendJackpotRunUpdate sid lastRoll st) = Some BigInt_rejects"
    and "stored (snd (sendJackpotRunUpdate sid lastRoll st)) = stored st"
    and "botUsername (snd (sendJackpotRunUpdate sid lastRoll st)) = botUsername st"
    and "map_of (activeHelperSessions (snd (sendJackpotRunUpdate sid lastRoll st))) sid =
           Some (sd\<lparr>turnTimeoutId := None\<rparr>)"
  using assms
  by (simp_all add: sendJackpotRunUpdate_def Let_def clearTimeout_def update_conv' split: option.splits)

lemma sjru_keys:
  "fst ` set (activeHelperSessions (snd (sendJackpotRunUpdate sid lastRoll st))) =
   fst ` set (activeHelperSessions st)"
proof (cases "map_of (activeHelperSessions st) sid")
  case None
  then show ?thesis by (simp add: sendJackpotRunUpdate_def)
next
  case (Some sd)
  then have "sid \<in> fst ` set (activeHelperSessions st)"
    by (meson domI domIff map_of_eq_None_iff)
  with Some show ?thesis
    by (auto simp: sendJackpotRunUpdate_def Let_def clearTimeout_def setTimeout_def dom_update
          split: option.splits)
qed

lemma sjru_ok_fields:
  assumes "map_of (activeHelperSessions st) sid = Some sd"
    and "jackpot_pool_at_session_start sd \<noteq> None"
    and "status sd = active_by_helper"
  shows "fst (sendJackpotRunUpdate sid lastRoll st) = None"
    and "timers (snd (sendJackpotRunUpdate sid lastRoll st)) =
           (case turnTimeoutId sd of
              None \<Rightarrow> timers st
            | Some t \<Rightarrow> filter (\<lambda>p. fst p \<noteq> t) (timers st)) @ [(next_timer st, sid)]"
    and "next_timer (snd (sendJackpotRunUpdate sid lastRoll st)) = Suc (next_timer st)"
    and "map_of (activeHelperSessions (snd (sendJackpotRunUpdate sid lastRoll st))) =
           (map_of (activeHelperSessions st))(sid \<mapsto> sd\<lparr>turnTimeoutId := Some (next_timer st)\<rparr>)"
    and "map fst (activeHelperSessions (snd (sendJackpotRunUpdate sid lastRoll st))) =
           map fst (activeHelperSessions st)"
    and "stored (snd (sendJackpotRunUpdate sid lastRoll st)) = stored st"
proof -
  from assms(1) have k: "sid \<in> fst ` set (activeHelperSessions st)"
    by (meson domI domIff map_of_eq_None_iff)
  have keys: "map fst (AList.update sid v (AList.update sid v' (activeHelperSessions st))) =
              map fst (activeHelperSessions st)" for v v'
    using k by (simp add: update_keys)
  from assms obtain x where x: "jackpot_pool_at_session_start sd = Some x" by auto
  show "fst (sendJackpotRunUpdate sid lastRoll st) = None"
    using assms(1,3) x
    by (simp add: sendJackpotRunUpdate_def Let_def setTimeout_def clearTimeout_def split: option.splits)
  show "timers (snd (sendJackpotRunUpdate sid lastRoll st)) =
           (case turnTimeoutId sd of
              None \<Rightarrow> timers st
            | Some t \<Rightarrow> filter (\<lambda>p. fst p \<noteq> t) (timers st)) @ [(next_timer st, sid)]"
    using assms(1,3) x
    by (simp add: sendJackpotRunUpdate_def Let_def setTimeout_def clearTimeout_def split: option.splits)
  show "next_timer (snd (sendJackpotRunUpdate sid lastRoll st)) = Suc (next_timer st)"
    using assms(1,3) x
    by (simp add: sendJackpotRunUpdate_def Let_def setTimeout_def clearTimeout_def split: option.splits)
  show "map_of (activeHelperSessions (snd (sendJackpotRunUpdate sid lastRoll st))) =
           (map_of (activeHelperSessions st))(sid \<mapsto> sd\<lparr>turnTimeoutId := Some (next_timer st)\<rparr>)"
    using assms(1,3) x
    by (simp add: sendJackpotRunUpdate_def Let_def setTimeout_def clearTimeout_def update_conv'
          split: option.splits)
  show "map fst (activeHelperSessions (snd (sendJackpotRunUpdate sid lastRoll st))) =
           map fst (activeHelperSessions st)"
    using assms(1,3) x keys
    by (simp add: sendJackpotRunUpdate_def Let_def setTimeout_def clearTimeout_def
          split: option.splits)
  show "stored (snd (sendJackpotRunUpdate sid lastRoll st)) = stored st"
    using assms(1,3) x
    by (simp add: sendJackpotRunUpdate_def Let_def setTimeout_def clearTimeout_def split: option.splits)
qed

lemma sjru_error_state:
  assumes "map_of (activeHelperSessions st) sid = Some sd"
    and "jackpot_pool_at_session_start sd = None" and "turnTimeoutId sd = None"
  shows "sendJackpotRunUpdate sid lastRoll st = (Some BigInt_rejects, st)"
proof -
  from assms(3) have "sd\<lparr>turnTimeoutId := None\<rparr> = sd" by simp
  with assms show ?thesis
    by (simp add: sendJackpotRunUpdate_def Let_def update_triv)
qed

lemma on_message_cases:
  obtains (ignored) "on_message dbFails now msg st = (None, st)"
  | (finalized) v found fs where
      "find (roll_matches (fst (the (msg_from msg))) (msg_chat msg)) (activeHelperSessions st) = Some found"
      "msg_dice msg = Some v" "fst found \<noteq> 0"
      "fs = completed_bust \<or> fs = completed_target_reached"
      "on_message dbFails now msg st =
         (None, finalizeJackpotSession dbFails now (fst found) fs
                  (current_total_score (record_roll v (snd found)))
                  (jackpot_run_rolls (record_roll v (snd found)))
                  (if fs = completed_bust then Busted_on v
                   else Target_reached (target_jackpot_score (record_roll v (snd found)))
                          (current_total_score (record_roll v (snd found))))
                  (accept_roll msg (fst (the (msg_from msg))) v found st))"
  | (continued) v found where
      "find (roll_matches (fst (the (msg_from msg))) (msg_chat msg)) (activeHelperSessions st) = Some found"
      "msg_dice msg = Some v" "fst found \<noteq> 0"
      "v \<noteq> bust_on_value (snd found)"
      "\<not> js_ge (current_total_score (record_roll v (snd found))) (target_jackpot_score (snd found))"
      "on_message dbFails now msg st =
         sendJackpotRunUpdate (fst found) (Some v) (accept_roll msg (fst (the (msg_from msg))) v found st)"
proof (cases "isShuttingDownHelper st \<or> msg_dice msg = None \<or> msg_from msg = None \<or>
               snd (the (msg_from msg)) \<or>
               find (roll_matches (fst (the (msg_from msg))) (msg_chat msg)) (activeHelperSessions st) = None \<or>
               fst (the (find (roll_matches (fst (the (msg_from msg))) (msg_chat msg))
                            (activeHelperSessions st))) = 0")
  case True
  have "on_message dbFails now msg st = (None, st)"
  proof (cases "isShuttingDownHelper st")
    case True
    then show ?thesis by (simp add: on_message_def)
  next
    case ns: False
    show ?thesis
    proof (cases "msg_dice msg")
      case None
      with ns show ?thesis by (simp add: on_message_def)
    next
      case d: (Some v)
      show ?thesis
      proof (cases "msg_from msg")
        case None
        with ns d show ?thesis by (simp add: on_message_def)
      next
        case f: (Some sender)
        show ?thesis
        proof (cases "snd sender")
          case True
          with ns d f show ?thesis by (simp add: on_message_def)
        next
          case nb: False
          show ?thesis
          proof (cases "find (roll_matches (fst sender) (msg_chat msg)) (activeHelperSessions st)")
            case None
            with ns d f nb show ?thesis by (simp add: on_message_def)
          next
            case (Some found)
            with True ns d f nb have "fst found = 0" by simp
            with Some ns d f nb show ?thesis by (simp add: on_message_def Let_def)
          qed
        qed
      qed
    qed
  qed
  then show ?thesis by (rule ignored)
next
  case False
  then have ns: "\<not> isShuttingDownHelper st" by simp
  from False have "msg_dice msg \<noteq> None" by simp
  then obtain v where d: "msg_dice msg = Some v" by (cases "msg_dice msg") simp_all
  from False have "msg_from msg \<noteq> None" by simp
  then obtain sender where f: "msg_from msg = Some sender" by (cases "msg_from msg") simp_all
  from False f have nb: "\<not> snd sender" by simp
  from False f have "find (roll_matches (fst sender) (msg_chat msg)) (activeHelperSessions st) \<noteq> None"
    by simp
  then obtain found where
      fd: "find (roll_matches (fst sender) (msg_chat msg)) (activeHelperSessions st) = Some found"
    by (cases "find (roll_matches (fst sender) (msg_chat msg)) (activeHelperSessions st)") simp_all
  from False f fd have nz: "fst found \<noteq> 0" by simp
  from f fd have fd': "find (roll_matches (fst (the (msg_from msg))) (msg_chat msg))
                        (activeHelperSessions st) = Some found"
    by simp
  consider (b) "v = bust_on_value (snd found)"
    | (t) "v \<noteq> bust_on_value (snd found)"
          "js_ge (current_total_score (record_roll v (snd found))) (target_jackpot_score (snd found))"
    | (c) "v \<noteq> bust_on_value (snd found)"
          "\<not> js_ge (current_total_score (record_roll v (snd found))) (target_jackpot_score (snd found))"
    by linarith
  then show ?thesis
  proof cases
    case b
    with d f fd nz ns nb have "on_message dbFails now msg st =
         (None, finalizeJackpotSession dbFails now (fst found) completed_bust
                  (current_total_score (record_roll v (snd found)))
                  (jackpot_run_rolls (record_roll v (snd found)))
                  (Busted_on v) (accept_roll msg (fst sender) v found st))"
      by (simp add: on_message_def Let_def record_roll_fields)
    then show ?thesis
      using finalized [of found v completed_bust] fd' d nz f by simp
  next
    case t
    with d f fd nz ns nb have "on_message dbFails now msg st =
         (None, finalizeJackpotSession dbFails now (fst found) completed_target_reached
                  (current_total_score (record_roll v (snd found)))
                  (jackpot_run_rolls (record_roll v (snd found)))
                  (Target_reached (target_jackpot_score (record_roll v (snd found)))
                          (current_total_score (record_roll v (snd found))))
                  (accept_roll msg (fst sender) v found st))"
      by (simp add: on_message_def Let_def record_roll_fields)
    then show ?thesis
      using finalized [of found v completed_target_reached] fd' d nz f by simp
  next
    case c
    with d f fd nz ns nb have "on_message dbFails now msg st =
         sendJackpotRunUpdate (fst found) (Some v) (accept_roll msg (fst sender) v found st)"
      by (simp add: on_message_def Let_def record_roll_fields)
    then show ?thesis
      using continued [of found v] fd' d nz c f by simp
  qed
qed

lemma on_message_keys:
  "fst ` set (activeHelperSessions (snd (on_message dbFails now msg st))) \<subseteq>
   fst ` set (activeHelperSessions st)"
proof (cases dbFails now msg st rule: on_message_cases)
  case ignored
  then show ?thesis by simp
next
  case (finalized v found fs)
  have "fst ` set (AList.delete (fst found) (activeHelperSessions (accept_roll msg (fst (the (msg_from msg))) v found st)))
          \<subseteq> fst ` set (activeHelperSessions (accept_roll msg (fst (the (msg_from msg))) v found st))"
    by (rule delete_keys_subset)
  also have "\<dots> = fst ` set (activeHelperSessions st)"
    by (rule accept_roll_keys [OF finalized(1)])
  finally show ?thesis
    by (simp add: finalized(5) fin_active)
next
  case (continued v found)
  have "fst ` set (activeHelperSessions (accept_roll msg (fst (the (msg_from msg))) v found st)) =
        fst ` set (activeHelperSessions st)"
    by (rule accept_roll_keys [OF continued(1)])
  then show ?thesis
    by (simp add: continued(6) sjru_keys)
qed

section \<open>Facts about the claim update\<close>

lemma claim_set_fields:
  "session_id (claim_set botName now r) = session_id r"
  "status (claim_set botName now r) = active_by_helper"
  "helper_bot_id (claim_set botName now r) = Some botName"
  by (simp_all add: claim_set_def)

lemma claim_update_none:
  "snd (claim_update botName now sid tbl) = [] \<longleftrightarrow> \<not> pending_row sid tbl"
  by (auto simp: claim_update_def pending_row_def list_ex_iff filter_empty_conv)

lemma claim_update_returned:
  "r \<in> set (snd (claim_update botName now sid tbl)) \<Longrightarrow>
     session_id r = sid \<and> status r = active_by_helper \<and> helper_bot_id r = Some botName"
  by (auto simp: claim_update_def claim_matches_def claim_set_fields)

lemma claim_matches_after_same:
  "\<not> claim_matches sid (if claim_matches sid r then claim_set botName now r else r)"
  by (simp add: claim_matches_def claim_set_fields)

lemma claim_matches_after_other:
  "s \<noteq> sid \<Longrightarrow>
     claim_matches s (if claim_matches sid r then claim_set botName now r else r) = claim_matches s r"
  by (simp add: claim_matches_def claim_set_fields)

lemma claim_update_takes_all: "\<not> pending_row sid (fst (claim_update botName now sid tbl))"
  unfolding claim_update_def pending_row_def fst_conv
  by (induction tbl) (simp_all only: list.map list_ex_Nil_iff list_ex_Cons_iff claim_matches_after_same simp_thms)

lemma claim_update_other:
  "s \<noteq> sid \<Longrightarrow> pending_row s (fst (claim_update botName now sid tbl)) = pending_row s tbl"
  unfolding claim_update_def pending_row_def fst_conv
  by (induction tbl) (simp_all only: list.map list_ex_Nil_iff list_ex_Cons_iff claim_matches_after_other simp_thms)

lemma claim_update_monotone:
  "pending_row s (fst (claim_update botName now sid tbl)) \<Longrightarrow> pending_row s tbl"
  by (cases "s = sid") (simp_all add: claim_update_takes_all claim_update_other)

lemma claim_update_pending_iff:
  "pending_row s (fst (claim_update botName now sid tbl)) \<longleftrightarrow> s \<noteq> sid \<and> pending_row s tbl"
  by (cases "s = sid") (simp_all add: claim_update_takes_all claim_update_other)

lemma claim_update_returned_in_table:
  "r \<in> set (snd (claim_update botName now sid tbl)) \<Longrightarrow>
     r \<in> set (fst (claim_update botName now sid tbl))"
  by (auto simp: claim_update_def)

lemma claim_update_keeps_claimed:
  "r \<in> set tbl \<Longrightarrow> status r \<noteq> pending_pickup \<Longrightarrow>
     r \<in> set (fst (claim_update botName now sid tbl))"
  by (force simp: claim_update_def claim_matches_def)

lemma commit_claims_Nil: "commit_claims [] tbl = tbl"
  by (simp add: commit_claims_def)

lemma commit_claims_Cons:
  "commit_claims (c # cs) tbl =
     commit_claims cs (fst (claim_update (fst c) (fst (snd c)) (claim_session c) tbl))"
  by (simp add: commit_claims_def claim_session_def)

lemma commit_claims_append:
  "commit_claims (cs @ ds) tbl = commit_claims ds (commit_claims cs tbl)"
  by (simp add: commit_claims_def)

lemma commit_claims_snoc:
  "commit_claims (cs @ [c]) tbl =
     fst (claim_update (fst c) (fst (snd c)) (claim_session c) (commit_claims cs tbl))"
  by (simp add: commit_claims_def claim_session_def)

lemma pending_after_commits:
  "pending_row s (commit_claims cs tbl) \<longleftrightarrow> pending_row s tbl \<and> s \<notin> claim_session ` set cs"
proof (induction cs arbitrary: tbl)
  case Nil
  show ?case by (simp add: commit_claims_Nil)
next
  case (Cons c cs)
  show ?case
    unfolding commit_claims_Cons Cons.IH claim_update_pending_iff by auto
qed

lemma claim_update_idset:
  "session_id ` set (fst (claim_update botName now sid tbl)) = session_id ` set tbl"
proof -
  have "map session_id (fst (claim_update botName now sid tbl)) = map session_id tbl"
    unfolding claim_update_def fst_conv
    by (induction tbl) (simp_all add: claim_set_fields)
  then show ?thesis by (metis set_map)
qed

lemma not_pending_iff:
  "list_all (\<lambda>r. session_id r = k \<longrightarrow> status r \<noteq> pending_pickup) tbl \<longleftrightarrow> \<not> pending_row k tbl"
  by (auto simp: pending_row_def list_all_iff list_ex_iff claim_matches_def)

lemma pending_row_id: "pending_row k tbl \<Longrightarrow> k \<in> session_id ` set tbl"
  by (auto simp: pending_row_def list_ex_iff claim_matches_def)

lemma claim_evolved_refl: "claim_evolved tbl tbl"
  by (simp add: claim_evolved_def)

lemma claim_evolved_update:
  "claim_evolved tbl tbl1 \<Longrightarrow> claim_evolved tbl (fst (claim_update botName now sid tbl1))"
  by (auto simp: claim_evolved_def claim_update_idset dest: claim_update_monotone)

lemma claim_evolved_commits:
  "claim_evolved tbl tbl1 \<Longrightarrow> claim_evolved tbl (commit_claims cs tbl1)"
proof (induction cs arbitrary: tbl1)
  case Nil
  then show ?case by (simp add: commit_claims_Nil)
next
  case (Cons c cs)
  show ?case
    unfolding commit_claims_Cons
    by (rule Cons.IH, rule claim_evolved_update, rule Cons.prems)
qed

section \<open>One loop pass, case by case\<close>

lemma select_pending_pending:
  assumes "select_pending locked tbl = Some r"
  shows "pending_row (session_id r) tbl"
proof -
  let ?xs = "sort_key created_at
               (filter (\<lambda>r. status r = pending_pickup \<and> session_id r \<notin> set locked) tbl)"
  from assms obtain rest where "?xs = r # rest"
    by (auto simp: select_pending_def split: list.splits)
  then have "r \<in> set ?xs" by simp
  then have "r \<in> set tbl" "status r = pending_pickup" by simp_all
  then show ?thesis
    by (auto simp: pending_row_def list_ex_iff claim_matches_def)
qed

lemma claim_attempt_cases:
  obtains
    (rolled_back) tbl' c where
      "claim_attempt env st = (Rolled_back, st\<lparr>stored := tbl', console := c\<rparr>)"
      "tbl' = stored st \<or> tbl' = commit_claims (rivals env) (stored st)"
  | (no_rows)
      "claim_attempt env st = (No_rows, st)"
      "select_pending (locked_rows env) (stored st) = None"
  | (zero_rows) sessionToClaim c where
      "select_pending (locked_rows env) (stored st) = Some sessionToClaim"
      "\<not> pending_row (session_id sessionToClaim) (commit_claims (rivals env) (stored st))"
      "claim_attempt env st =
         (Zero_rows (session_id sessionToClaim),
          st\<lparr>stored := commit_claims (rivals env) (stored st), console := c\<rparr>)"
  | (claimed) sessionToClaim claimedRow rest c where
      "select_pending (locked_rows env) (stored st) = Some sessionToClaim"
      "snd (claim_update (botUsername st) (claim_now env) (session_id sessionToClaim)
              (commit_claims (rivals env) (stored st))) = claimedRow # rest"
      "claim_attempt env st =
         (Claimed claimedRow,
          st\<lparr>stored := fst (claim_update (botUsername st) (claim_now env)
                              (session_id sessionToClaim)
                              (commit_claims (rivals env) (stored st))),
             console := c\<rparr>)"
proof (cases "fault env = Connect_fails \<or> fault env = Begin_fails \<or> fault env = Select_fails")
  case True
  then have "claim_attempt env st =
               (Rolled_back, st\<lparr>stored := stored st, console := console st @ [Claim_db_error]\<rparr>)"
    by (simp add: claim_attempt_def)
  then show ?thesis by (rule rolled_back) simp
next
  case nf: False
  show ?thesis
  proof (cases "select_pending (locked_rows env) (stored st)")
    case None
    show ?thesis
    proof (cases "fault env = Commit_fails")
      case True
      with nf None have "claim_attempt env st =
               (Rolled_back, st\<lparr>stored := stored st, console := console st @ [Claim_db_error]\<rparr>)"
        by (simp add: claim_attempt_def)
      then show ?thesis by (rule rolled_back) simp
    next
      case False
      with nf None have "claim_attempt env st = (No_rows, st)"
        by (simp add: claim_attempt_def)
      then show ?thesis using None by (rule no_rows)
    qed
  next
    case (Some sessionToClaim)
    define tbl1 where "tbl1 = commit_claims (rivals env) (stored st)"
    define res where "res = claim_update (botUsername st) (claim_now env)
                              (session_id sessionToClaim) tbl1"
    have run: "claim_attempt env st =
        (if fault env = Update_fails then
           (Rolled_back, st\<lparr>stored := tbl1, console := console st @ [Claim_db_error]\<rparr>)
         else case snd res of
                [] \<Rightarrow> (Zero_rows (session_id sessionToClaim),
                       st\<lparr>stored := tbl1,
                          console := console st @ [Failed_to_claim (session_id sessionToClaim)]\<rparr>)
              | claimedRow # _ \<Rightarrow>
                  (if fault env = Commit_fails then
                     (Rolled_back, st\<lparr>stored := tbl1, console := console st @ [Claim_db_error]\<rparr>)
                   else (Claimed claimedRow,
                         st\<lparr>stored := fst res,
                            console := console st @ [Session_claimed (session_id sessionToClaim)]\<rparr>)))"
      using nf Some
      by (simp add: claim_attempt_def Let_def res_def tbl1_def split: list.splits)
    show ?thesis
    proof (cases "fault env = Update_fails")
      case True
      then have "claim_attempt env st =
                   (Rolled_back, st\<lparr>stored := tbl1, console := console st @ [Claim_db_error]\<rparr>)"
        by (simp add: run)
      then show ?thesis by (rule rolled_back) (simp add: tbl1_def)
    next
      case nu: False
      show ?thesis
      proof (cases "snd res")
        case Nil
        then have "\<not> pending_row (session_id sessionToClaim) tbl1"
          unfolding res_def by (simp add: claim_update_none)
        moreover from nu Nil have "claim_attempt env st =
            (Zero_rows (session_id sessionToClaim),
             st\<lparr>stored := tbl1,
                console := console st @ [Failed_to_claim (session_id sessionToClaim)]\<rparr>)"
          by (simp add: run)
        ultimately show ?thesis
          using Some unfolding tbl1_def by (intro zero_rows)
      next
        case (Cons claimedRow rest)
        show ?thesis
        proof (cases "fault env = Commit_fails")
          case True
          with nu Cons have "claim_attempt env st =
                   (Rolled_back, st\<lparr>stored := tbl1, console := console st @ [Claim_db_error]\<rparr>)"
            by (simp add: run)
          then show ?thesis by (rule rolled_back) (simp add: tbl1_def)
        next
          case False
          with nu Cons have "claim_attempt env st =
              (Claimed claimedRow,
               st\<lparr>stored := fst res,
                  console := console st @ [Session_claimed (session_id sessionToClaim)]\<rparr>)"
            by (simp add: run)
          with Some Cons show ?thesis
            unfolding res_def tbl1_def by (intro claimed)
        qed
      qed
    qed
  qed
qed

section \<open>Passes of several instances keep their invariant\<close>

lemma missed_after_snapshot:
  "commit_claims (missed m w) (snapshot m w) = commit_claims (commits w) (table0 w)"
  unfolding missed_def snapshot_def commit_claims_append [symmetric] append_take_drop_id ..

lemma snapshot_pending:
  "pending_row s (snapshot m w) \<Longrightarrow> pending_row s (table0 w)"
  by (simp add: snapshot_def pending_after_commits)

lemma world_step_cases:
  assumes tb: "table w = commit_claims (commits w) (table0 w)"
  obtains
    (quiet) res where
      "world_step w (st, m, env) = w\<lparr>results := results w @ [(botUsername st, res)]\<rparr>"
      "res = Rolled_back \<or> res = No_rows"
  | (lost) sessionToClaim where
      "select_pending (locked_rows env) (snapshot m w) = Some sessionToClaim"
      "\<not> pending_row (session_id sessionToClaim) (table w)"
      "world_step w (st, m, env) =
         w\<lparr>results := results w @ [(botUsername st, Zero_rows (session_id sessionToClaim))]\<rparr>"
  | (won) sessionToClaim claimedRow rest where
      "select_pending (locked_rows env) (snapshot m w) = Some sessionToClaim"
      "snd (claim_update (botUsername st) (claim_now env) (session_id sessionToClaim) (table w)) =
         claimedRow # rest"
      "world_step w (st, m, env) =
         w\<lparr>commits := commits w @ [(botUsername st, claim_now env, session_id claimedRow)],
           table := fst (claim_update (botUsername st) (claim_now env)
                           (session_id sessionToClaim) (table w)),
           results := results w @ [(botUsername st, Claimed claimedRow)]\<rparr>"
proof -
  let ?env = "env\<lparr>rivals := missed m w\<rparr>"
  let ?st = "st\<lparr>stored := snapshot m w\<rparr>"
  have ws: "world_step w (st, m, env) =
     (case fst (claim_attempt ?env ?st) of
        Claimed claimedSessionData \<Rightarrow>
          w\<lparr>commits := commits w @ [(botUsername st, claim_now env, session_id claimedSessionData)],
            table := stored (snd (claim_attempt ?env ?st)),
            results := results w @ [(botUsername st, fst (claim_attempt ?env ?st))]\<rparr>
      | _ \<Rightarrow> w\<lparr>results := results w @ [(botUsername st, fst (claim_attempt ?env ?st))]\<rparr>)"
    by (simp add: world_step_def Let_def)
  have now: "commit_claims (rivals ?env) (stored ?st) = table w"
    by (simp add: missed_after_snapshot tb)
  show ?thesis
  proof (cases ?env ?st rule: claim_attempt_cases)
    case (rolled_back tbl' c)
    show ?thesis
      by (rule quiet [of Rolled_back]) (simp_all add: ws rolled_back(1))
  next
    case no_rows
    show ?thesis
      by (rule quiet [of No_rows]) (simp_all add: ws no_rows(1))
  next
    case (zero_rows sessionToClaim c)
    show ?thesis
    proof (rule lost [of sessionToClaim])
      from zero_rows(1) show "select_pending (locked_rows env) (snapshot m w) = Some sessionToClaim"
        by simp
      from zero_rows(2) show "\<not> pending_row (session_id sessionToClaim) (table w)"
        unfolding now .
      show "world_step w (st, m, env) =
         w\<lparr>results := results w @ [(botUsername st, Zero_rows (session_id sessionToClaim))]\<rparr>"
        by (simp add: ws zero_rows(3))
    qed
  next
    case (claimed sessionToClaim claimedRow rest c)
    show ?thesis
    proof (rule won [of sessionToClaim claimedRow rest])
      from claimed(1) show "select_pending (locked_rows env) (snapshot m w) = Some sessionToClaim"
        by simp
      from claimed(2) show "snd (claim_update (botUsername st) (claim_now env)
                                  (session_id sessionToClaim) (table w)) = claimedRow # rest"
        unfolding now by simp
      show "world_step w (st, m, env) =
         w\<lparr>commits := commits w @ [(botUsername st, claim_now env, session_id claimedRow)],
           table := fst (claim_update (botUsername st) (claim_now env)
                           (session_id sessionToClaim) (table w)),
           results := results w @ [(botUsername st, Claimed claimedRow)]\<rparr>"
        unfolding ws claimed(3) now by simp
    qed
  qed
qed

lemma map_filter_snoc:
  "List.map_filter f (xs @ [x]) =
     List.map_filter f xs @ (case f x of None \<Rightarrow> [] | Some y \<Rightarrow> [y])"
  by (simp add: List.map_filter_def split: option.splits)

lemma map_filter_member:
  "s \<in> set (List.map_filter f xs) \<longleftrightarrow> (\<exists>x \<in> set xs. f x = Some s)"
  by (induction xs) (auto simp: List.map_filter_simps split: option.splits)

lemma distinct_map_filter_once:
  "distinct (List.map_filter f xs) \<Longrightarrow> length (filter (\<lambda>e. f e = Some s) xs) \<le> 1"
proof (induction xs)
  case Nil
  show ?case by simp
next
  case (Cons x xs)
  show ?case
  proof (cases "f x = Some s")
    case True
    with Cons.prems have "s \<notin> set (List.map_filter f xs)"
      by simp
    then have "filter (\<lambda>e. f e = Some s) xs = []"
      by (simp add: map_filter_member filter_empty_conv)
    with True show ?thesis by simp
  next
    case False
    from Cons.prems have "distinct (List.map_filter f xs)"
      by (simp split: option.splits)
    with Cons.IH False show ?thesis by simp
  qed
qed

lemma holds_claim_cong: "table w' = table w \<Longrightarrow> holds_claim w' = holds_claim w"
  by (rule ext) (simp add: holds_claim_def split: attempt_result.splits)

lemma world_inv_quiet:
  assumes inv: "world_inv w"
    and res: "claimed_session res = None" "\<And>s. res = Zero_rows s \<Longrightarrow> s \<in> claim_session ` set (commits w)"
  shows "world_inv (w\<lparr>results := results w @ [(botName, res)]\<rparr>)"
proof -
  let ?w = "w\<lparr>results := results w @ [(botName, res)]\<rparr>"
  have hc: "holds_claim ?w = holds_claim w"
    by (rule holds_claim_cong) simp
  have new: "holds_claim w (botName, res)"
    using res(1) by (cases res) (simp_all add: holds_claim_def)
  from inv res new show ?thesis
    unfolding world_inv_def hc
    by (auto simp: map_filter_snoc)
qed

lemma world_inv_won:
  assumes inv: "world_inv w"
    and upd: "snd (claim_update botName now sid (table w)) = claimedRow # rest"
  shows "world_inv (w\<lparr>commits := commits w @ [(botName, now, session_id claimedRow)],
                      table := fst (claim_update botName now sid (table w)),
                      results := results w @ [(botName, Claimed claimedRow)]\<rparr>)"
proof -
  let ?tbl = "fst (claim_update botName now sid (table w))"
  let ?w = "w\<lparr>commits := commits w @ [(botName, now, session_id claimedRow)],
              table := ?tbl, results := results w @ [(botName, Claimed claimedRow)]\<rparr>"
  from inv have tb: "table w = commit_claims (commits w) (table0 w)"
    and cs: "map claim_session (commits w) =
               List.map_filter (\<lambda>e. claimed_session (snd e)) (results w)"
    and di: "distinct (map claim_session (commits w))"
    and pe: "\<forall>c \<in> set (commits w). pending_row (claim_session c) (table0 w)"
    and zr: "\<forall>e \<in> set (results w). \<forall>s. snd e = Zero_rows s \<longrightarrow> s \<in> claim_session ` set (commits w)"
    and hc: "list_all (holds_claim w) (results w)"
    unfolding world_inv_def by blast+
  from upd have rin: "claimedRow \<in> set (snd (claim_update botName now sid (table w)))" by simp
  then have r: "session_id claimedRow = sid" "status claimedRow = active_by_helper"
      "helper_bot_id claimedRow = Some botName"
    using claim_update_returned by blast+
  from upd have "pending_row sid (table w)"
    using claim_update_none [of botName now sid "table w"] by simp
  then have p0: "pending_row sid (table0 w)" and fresh: "sid \<notin> claim_session ` set (commits w)"
    unfolding tb pending_after_commits by simp_all
  have t1: "table ?w = commit_claims (commits ?w) (table0 ?w)"
    by (simp add: commit_claims_snoc claim_session_def r(1) tb)
  have t2: "map claim_session (commits ?w) =
              List.map_filter (\<lambda>e. claimed_session (snd e)) (results ?w)"
    by (simp add: map_filter_snoc cs claim_session_def)
  have t3: "distinct (map claim_session (commits ?w))"
    using di fresh by (simp add: claim_session_def r(1))
  have t4: "\<forall>c \<in> set (commits ?w). pending_row (claim_session c) (table0 ?w)"
    using pe p0 by (simp add: claim_session_def r(1))
  have t5: "\<forall>e \<in> set (results ?w). \<forall>s. snd e = Zero_rows s \<longrightarrow>
              s \<in> claim_session ` set (commits ?w)"
    using zr by auto
  have old: "holds_claim ?w e" if "e \<in> set (results w)" for e
  proof -
    from hc that have h: "holds_claim w e" by (simp add: list_all_iff)
    show ?thesis
    proof (cases "snd e")
      case (Claimed x)
      with h have "status x = active_by_helper" "helper_bot_id x = Some (fst e)" "x \<in> set (table w)"
        by (simp_all add: holds_claim_def)
      moreover from this have "x \<in> set ?tbl"
        by (intro claim_update_keeps_claimed) simp_all
      ultimately show ?thesis using Claimed by (simp add: holds_claim_def)
    qed (simp_all add: holds_claim_def)
  qed
  have new: "holds_claim ?w (botName, Claimed claimedRow)"
    using r claim_update_returned_in_table [OF rin] by (simp add: holds_claim_def)
  have t6: "list_all (holds_claim ?w) (results ?w)"
    using old new by (simp add: list_all_iff)
  from t1 t2 t3 t4 t5 t6 show ?thesis
    unfolding world_inv_def by blast
qed

lemma world_inv_step:
  assumes inv: "world_inv w"
  shows "world_inv (world_step w a)"
proof -
  obtain st m env where a: "a = (st, m, env)" by (cases a)
  from inv have tb: "table w = commit_claims (commits w) (table0 w)"
    unfolding world_inv_def by blast
  have "world_inv (world_step w (st, m, env))"
    using tb
  proof (cases rule: world_step_cases [of w st m env])
    case (quiet res)
    from quiet(2) show ?thesis
      unfolding quiet(1) by (intro world_inv_quiet [OF inv]) auto
  next
    case (lost sessionToClaim)
    let ?sid = "session_id sessionToClaim"
    have "pending_row ?sid (snapshot m w)"
      by (rule select_pending_pending [OF lost(1)])
    then have "pending_row ?sid (table0 w)" by (rule snapshot_pending)
    with lost(2) have "?sid \<in> claim_session ` set (commits w)"
      unfolding tb pending_after_commits by simp
    then show ?thesis
      unfolding lost(3) by (intro world_inv_quiet [OF inv]) simp_all
  next
    case (won sessionToClaim claimedRow rest)
    show ?thesis
      unfolding won(3) by (rule world_inv_won [OF inv won(2)])
  qed
  then show ?thesis by (simp add: a)
qed

lemma world_inv_run: "world_inv w \<Longrightarrow> world_inv (foldl world_step w as)"
  by (induction as arbitrary: w) (simp_all add: world_inv_step)

lemma world_inv_attempts: "world_inv (run_attempts tbl as)"
  unfolding run_attempts_def
  by (rule world_inv_run) (simp add: world_inv_def commit_claims_Nil)

lemma table0_run: "table0 (foldl world_step w as) = table0 w"
proof (induction as arbitrary: w)
  case Nil
  show ?case by simp
next
  case (Cons a as)
  have "table0 (world_step w a) = table0 w"
    by (simp add: world_step_def Let_def split: attempt_result.splits)
  with Cons.IH [of "world_step w a"] show ?case by simp
qed

lemma table0_attempts: "table0 (run_attempts tbl as) = tbl"
  by (simp add: run_attempts_def table0_run)

lemma results_names_run:
  "map fst (results (foldl world_step w as)) =
     map fst (results w) @ map (\<lambda>a. botUsername (fst a)) as"
proof (induction as arbitrary: w)
  case Nil
  show ?case by simp
next
  case (Cons a as)
  have "map fst (results (world_step w a)) = map fst (results w) @ [botUsername (fst a)]"
    by (simp add: world_step_def Let_def split: attempt_result.splits)
  with Cons.IH [of "world_step w a"] show ?case by simp
qed

lemma world_step_no_fault:
  assumes tb: "table w = commit_claims (commits w) (table0 w)"
    and nf: "fault env = No_fault"
    and sel: "select_pending (locked_rows env) (snapshot m w) = Some sessionToClaim"
  shows "world_step w (st, m, env) =
           (if pending_row (session_id sessionToClaim) (table w) then
              w\<lparr>commits := commits w @ [(botUsername st, claim_now env, session_id sessionToClaim)],
                table := fst (claim_update (botUsername st) (claim_now env)
                                (session_id sessionToClaim) (table w)),
                results := results w @
                  [(botUsername st,
                    Claimed (hd (snd (claim_update (botUsername st) (claim_now env)
                                        (session_id sessionToClaim) (table w)))))]\<rparr>
            else w\<lparr>results := results w @
                      [(botUsername st, Zero_rows (session_id sessionToClaim))]\<rparr>)"
  using tb
proof (cases rule: world_step_cases [of w st m env])
  case (quiet res)
  let ?env = "env\<lparr>rivals := missed m w\<rparr>"
  let ?st = "st\<lparr>stored := snapshot m w\<rparr>"
  have "fst (claim_attempt ?env ?st) \<noteq> Rolled_back \<and> fst (claim_attempt ?env ?st) \<noteq> No_rows"
    using nf sel by (simp add: claim_attempt_def Let_def split: list.splits)
  moreover have "fst (claim_attempt ?env ?st) = res"
  proof -
    have "results (world_step w (st, m, env)) =
            results w @ [(botUsername st, fst (claim_attempt ?env ?st))]"
      by (simp add: world_step_def Let_def split: attempt_result.splits)
    with quiet(1) show ?thesis by simp
  qed
  ultimately show ?thesis using quiet(2) by simp
next
  case (lost r0)
  with sel show ?thesis by simp
next
  case (won r0 claimedRow rest)
  from won(1) sel have e: "r0 = sessionToClaim" by simp
  from won(2) have "claimedRow \<in> set (snd (claim_update (botUsername st) (claim_now env)
                                            (session_id r0) (table w)))" by simp
  then have sid: "session_id claimedRow = session_id r0"
    using claim_update_returned by blast
  from won(2) have "pending_row (session_id r0) (table w)"
    using claim_update_none [of "botUsername st" "claim_now env" "session_id r0" "table w"] by simp
  with won(2,3) sid e show ?thesis by simp
qed

section \<open>Every handler keeps the invariant of the helper\<close>

lemma helper_inv_alt:
  "helper_inv st \<longleftrightarrow>
     distinct (map fst (activeHelperSessions st)) \<and>
     (\<forall>k sd. map_of (activeHelperSessions st) k = Some sd \<longrightarrow> session_ok st (k, sd)) \<and>
     distinct (map fst (timers st)) \<and>
     (\<forall>p \<in> set (timers st). timer_ok st p)"
proof (cases "distinct (map fst (activeHelperSessions st))")
  case True
  then have "(\<forall>e \<in> set (activeHelperSessions st). session_ok st e) \<longleftrightarrow>
             (\<forall>k sd. map_of (activeHelperSessions st) k = Some sd \<longrightarrow> session_ok st (k, sd))"
    by auto
  with True show ?thesis by (simp add: helper_inv_def list_all_iff)
next
  case False
  then show ?thesis by (simp add: helper_inv_def)
qed

lemma session_ok_iff:
  "session_ok st (k, sd) \<longleftrightarrow>
     session_core st (k, sd) \<and> (\<exists>t. turnTimeoutId sd = Some t \<and> (t, k) \<in> set (timers st))"
  by (auto simp: session_ok_def session_core_def split: option.splits)

lemma session_core_cong:
  "stored st' = stored st \<Longrightarrow> session_core st' e = session_core st e"
  by (simp add: session_core_def)

lemma session_core_handle:
  "session_core st' (k, sd\<lparr>turnTimeoutId := h\<rparr>) = session_core st' (k, sd)"
  by (simp add: session_core_def scores_consistent_def)

lemma timer_ok_iff:
  "timer_ok st (t, k) \<longleftrightarrow>
     t < next_timer st \<and> (\<exists>sd. map_of (activeHelperSessions st) k = Some sd \<and> turnTimeoutId sd = Some t)"
  by (auto simp: timer_ok_def split: option.splits)

lemma session_ok_cong:
  assumes "timers st' = timers st" "stored st' = stored st"
  shows "session_ok st' = session_ok st"
proof
  fix e
  show "session_ok st' e = session_ok st e"
    using assms by (cases e) (simp add: session_ok_iff session_core_def)
qed

lemma timer_ok_cong:
  assumes "activeHelperSessions st' = activeHelperSessions st" "next_timer st' = next_timer st"
  shows "timer_ok st' = timer_ok st"
proof
  fix p
  show "timer_ok st' p = timer_ok st p"
    using assms by (cases p) (simp add: timer_ok_iff)
qed

lemma inv_except_cong:
  assumes "activeHelperSessions st' = activeHelperSessions st" "timers st' = timers st"
    "stored st' = stored st" "next_timer st' = next_timer st"
  shows "inv_except sid st' = inv_except sid st"
  unfolding inv_except_def
  by (simp only: assms session_ok_cong [OF assms(2,3)] timer_ok_cong [OF assms(1,4)])

lemma helper_inv_except: "helper_inv st \<Longrightarrow> inv_except sid st"
proof -
  assume inv: "helper_inv st"
  have own: "snd p = sid"
    if "map_of (activeHelperSessions st) sid = Some sd" "turnTimeoutId sd = Some t"
       "p \<in> set (timers st)" "fst p = t" for sd t p
  proof -
    from inv that(1) have "session_ok st (sid, sd)" by (simp add: helper_inv_alt)
    with that(2) have "(t, sid) \<in> set (timers st)" by (auto simp: session_ok_iff)
    moreover from inv have "distinct (map fst (timers st))" by (simp add: helper_inv_alt)
    ultimately show ?thesis
      using that(3,4) by (metis eq_key_imp_eq_value prod.collapse snd_conv)
  qed
  from inv own show ?thesis
    unfolding inv_except_def helper_inv_alt by blast
qed

lemma session_core_finalize:
  assumes "session_core st e" and "fs \<noteq> pending_pickup"
  shows "session_core (finalizeJackpotSession dbFails now sid fs sc rolls outcome st) e"
  using assms
  by (simp add: session_core_def fin_stored finalize_update_idset finalize_update_not_pending)

lemma finalize_restores_inv:
  assumes ex: "inv_except sid st" and fs: "fs \<noteq> pending_pickup"
  shows "helper_inv (finalizeJackpotSession dbFails now sid fs sc rolls outcome st)"
proof -
  let ?st = "finalizeJackpotSession dbFails now sid fs sc rolls outcome st"
  from ex have dk: "distinct (map fst (activeHelperSessions st))"
    and others: "\<And>k sd. map_of (activeHelperSessions st) k = Some sd \<Longrightarrow> k \<noteq> sid \<Longrightarrow> session_ok st (k, sd)"
    and dt: "distinct (map fst (timers st))"
    and tok: "\<And>p. p \<in> set (timers st) \<Longrightarrow> timer_ok st p"
    and own: "\<And>sd t p. map_of (activeHelperSessions st) sid = Some sd \<Longrightarrow> turnTimeoutId sd = Some t \<Longrightarrow>
                p \<in> set (timers st) \<Longrightarrow> fst p = t \<Longrightarrow> snd p = sid"
    unfolding inv_except_def by blast+
  have tm: "p \<in> set (timers ?st) \<longleftrightarrow>
              p \<in> set (timers st) \<and>
              (\<forall>sd t. map_of (activeHelperSessions st) sid = Some sd \<and> turnTimeoutId sd = Some t \<longrightarrow> fst p \<noteq> t)"
    for p
    by (auto simp: fin_timers split: option.splits)
  have mp: "map_of (activeHelperSessions ?st) k = (if k = sid then None else map_of (activeHelperSessions st) k)"
    for k
    by (simp add: fin_active delete_conv')
  show ?thesis
    unfolding helper_inv_alt
  proof (intro conjI allI impI ballI)
    show "distinct (map fst (activeHelperSessions ?st))"
      using dk by (simp add: fin_active distinct_delete)
    show "distinct (map fst (timers ?st))"
      using dt by (auto simp: fin_timers distinct_map_filter split: option.splits)
  next
    fix k sd
    assume "map_of (activeHelperSessions ?st) k = Some sd"
    then have k: "k \<noteq> sid" and m: "map_of (activeHelperSessions st) k = Some sd"
      by (simp_all add: mp split: if_splits)
    from others [OF m k] obtain t where core: "session_core st (k, sd)"
      and h: "turnTimeoutId sd = Some t" and t: "(t, k) \<in> set (timers st)"
      unfolding session_ok_iff by blast
    have "(t, k) \<in> set (timers ?st)"
      unfolding tm using t own [of _ _ "(t, k)"] k by auto
    with h session_core_finalize [OF core fs] show "session_ok ?st (k, sd)"
      unfolding session_ok_iff by blast
  next
    fix p
    assume p: "p \<in> set (timers ?st)"
    then have pin: "p \<in> set (timers st)"
      and pn: "\<And>sd t. map_of (activeHelperSessions st) sid = Some sd \<Longrightarrow> turnTimeoutId sd = Some t \<Longrightarrow> fst p \<noteq> t"
      unfolding tm by blast+
    obtain t k where pk: "p = (t, k)" by (cases p)
    from tok [OF pin] pk have "timer_ok st (t, k)" by simp
    then obtain sd where lt: "t < next_timer st"
      and m: "map_of (activeHelperSessions st) k = Some sd" and h: "turnTimeoutId sd = Some t"
      unfolding timer_ok_iff by blast
    have "k \<noteq> sid"
    proof
      assume "k = sid"
      with m h pn [of sd t] pk show False by simp
    qed
    with lt m h pk show "timer_ok ?st p"
      by (simp add: timer_ok_iff mp fin_unchanged)
  qed
qed

lemma finalize_keeps_inv:
  "helper_inv st \<Longrightarrow> fs \<noteq> pending_pickup \<Longrightarrow>
     helper_inv (finalizeJackpotSession dbFails now sid fs sc rolls outcome st)"
  by (rule finalize_restores_inv [OF helper_inv_except])

lemma prompt_restores_inv:
  assumes ex: "inv_except sid st"
    and m: "map_of (activeHelperSessions st) sid = Some sd"
    and core: "session_core st (sid, sd)"
  shows "helper_inv (snd (sendJackpotRunUpdate sid lastRoll st))"
proof -
  let ?st = "snd (sendJackpotRunUpdate sid lastRoll st)"
  from core have pool: "jackpot_pool_at_session_start sd \<noteq> None" and act: "status sd = active_by_helper"
    by (simp_all add: session_core_def)
  note f = sjru_ok_fields [OF m pool act, of lastRoll]
  from ex have dk: "distinct (map fst (activeHelperSessions st))"
    and others: "\<And>k sd. map_of (activeHelperSessions st) k = Some sd \<Longrightarrow> k \<noteq> sid \<Longrightarrow> session_ok st (k, sd)"
    and dt: "distinct (map fst (timers st))"
    and tok: "\<And>p. p \<in> set (timers st) \<Longrightarrow> timer_ok st p"
    and own: "\<And>sd t p. map_of (activeHelperSessions st) sid = Some sd \<Longrightarrow> turnTimeoutId sd = Some t \<Longrightarrow>
                p \<in> set (timers st) \<Longrightarrow> fst p = t \<Longrightarrow> snd p = sid"
    unfolding inv_except_def by blast+
  have tm: "p \<in> set (timers ?st) \<longleftrightarrow>
              p = (next_timer st, sid) \<or>
              (p \<in> set (timers st) \<and> (\<forall>t. turnTimeoutId sd = Some t \<longrightarrow> fst p \<noteq> t))" for p
    by (auto simp: f(2) split: option.splits)
  have fresh: "fst p < next_timer st" if "p \<in> set (timers st)" for p
    using tok [OF that] by (cases p) (simp add: timer_ok_iff)
  have old_sid: "turnTimeoutId sd = Some t" if "(t, sid) \<in> set (timers st)" for t
    using tok [OF that] m by (simp add: timer_ok_iff)
  show ?thesis
    unfolding helper_inv_alt
  proof (intro conjI allI impI ballI)
    show "distinct (map fst (activeHelperSessions ?st))"
      using dk by (simp add: f(5))
    have "next_timer st \<notin> fst ` set (timers st)"
    proof
      assume "next_timer st \<in> fst ` set (timers st)"
      then obtain p where "p \<in> set (timers st)" "fst p = next_timer st" by auto
      with fresh [of p] show False by simp
    qed
    then show "distinct (map fst (timers ?st))"
      using dt by (auto simp: f(2) distinct_map_filter split: option.splits)
  next
    fix k sd'
    assume a: "map_of (activeHelperSessions ?st) k = Some sd'"
    show "session_ok ?st (k, sd')"
    proof (cases "k = sid")
      case True
      with a have "sd' = sd\<lparr>turnTimeoutId := Some (next_timer st)\<rparr>" by (simp add: f(4))
      then show ?thesis
        using core True
        by (simp add: session_ok_iff session_core_handle session_core_cong [OF f(6)] tm)
    next
      case False
      with a have mk: "map_of (activeHelperSessions st) k = Some sd'" by (simp add: f(4))
      from others [OF mk False] obtain t where c: "session_core st (k, sd')"
        and h: "turnTimeoutId sd' = Some t" and t: "(t, k) \<in> set (timers st)"
        unfolding session_ok_iff by blast
      have "(t, k) \<in> set (timers ?st)"
        unfolding tm using t own [OF m, of _ "(t, k)"] False by auto
      with c h show ?thesis
        by (auto simp: session_ok_iff session_core_cong [OF f(6)])
    qed
  next
    fix p
    assume "p \<in> set (timers ?st)"
    then consider (new) "p = (next_timer st, sid)"
      | (old) "p \<in> set (timers st)" "\<And>t. turnTimeoutId sd = Some t \<Longrightarrow> fst p \<noteq> t"
      unfolding tm by blast
    then show "timer_ok ?st p"
    proof cases
      case new
      then show ?thesis by (simp add: timer_ok_iff f(3,4))
    next
      case old
      obtain t k where pk: "p = (t, k)" by (cases p)
      with tok [OF old(1)] have "timer_ok st (t, k)" by simp
      then obtain sd' where lt: "t < next_timer st"
        and mk: "map_of (activeHelperSessions st) k = Some sd'" and h: "turnTimeoutId sd' = Some t"
        unfolding timer_ok_iff by blast
      have "k \<noteq> sid"
      proof
        assume "k = sid"
        with mk m h old(2) [of t] pk show False by simp
      qed
      with lt mk h pk show ?thesis
        by (simp add: timer_ok_iff f(3,4))
    qed
  qed
qed

lemma scores_consistent_record_roll:
  "scores_consistent sd \<Longrightarrow> scores_consistent (record_roll v sd)"
  by (simp add: scores_consistent_def record_roll_fields)

lemma disarm_gives_inv_except:
  assumes inv: "helper_inv st"
    and m: "map_of (activeHelperSessions st) sid = Some sd"
    and a: "activeHelperSessions st' = AList.update sid sd' (activeHelperSessions st)"
    and t: "timers st' =
              (case turnTimeoutId sd of None \<Rightarrow> timers st
               | Some t \<Rightarrow> filter (\<lambda>p. fst p \<noteq> t) (timers st))"
    and s: "stored st' = stored st" and n: "next_timer st' = next_timer st"
    and h: "turnTimeoutId sd' = None \<or> turnTimeoutId sd' = turnTimeoutId sd"
  shows "inv_except sid st'"
proof -
  from inv have dk: "distinct (map fst (activeHelperSessions st))"
    and all: "\<And>k sd. map_of (activeHelperSessions st) k = Some sd \<Longrightarrow> session_ok st (k, sd)"
    and dt: "distinct (map fst (timers st))"
    and tok: "\<And>p. p \<in> set (timers st) \<Longrightarrow> timer_ok st p"
    unfolding helper_inv_alt by blast+
  from all [OF m] obtain t0 where h0: "turnTimeoutId sd = Some t0" and t0: "(t0, sid) \<in> set (timers st)"
    unfolding session_ok_iff by blast
  have tm: "set (timers st') = {p \<in> set (timers st). fst p \<noteq> t0}"
    by (auto simp: t h0)
  have uniq: "k = sid" if "(t0, k) \<in> set (timers st)" for k
    using dt t0 that by (meson eq_key_imp_eq_value)
  have mp: "map_of (activeHelperSessions st') k =
              (if k = sid then Some sd' else map_of (activeHelperSessions st) k)" for k
    by (simp add: a update_conv')
  show ?thesis
    unfolding inv_except_def
  proof (intro conjI allI impI ballI)
    show "distinct (map fst (activeHelperSessions st'))"
      using dk by (simp add: a distinct_update)
    show "distinct (map fst (timers st'))"
      using dt by (simp add: t h0 distinct_map_filter)
  next
    fix k sd''
    assume "map_of (activeHelperSessions st') k = Some sd'' \<and> k \<noteq> sid"
    then have mk: "map_of (activeHelperSessions st) k = Some sd''" and k: "k \<noteq> sid"
      by (auto simp: mp)
    from all [OF mk] obtain tk where c: "session_core st (k, sd'')"
      and hk: "turnTimeoutId sd'' = Some tk" and tk: "(tk, k) \<in> set (timers st)"
      unfolding session_ok_iff by blast
    from tk k uniq have "tk \<noteq> t0" by blast
    with tk have "(tk, k) \<in> set (timers st')" by (simp add: tm)
    with c hk show "session_ok st' (k, sd'')"
      by (auto simp: session_ok_iff session_core_cong [OF s])
  next
    fix p
    assume "p \<in> set (timers st')"
    then have pin: "p \<in> set (timers st)" and pn: "fst p \<noteq> t0" by (simp_all add: tm)
    obtain tp k where pk: "p = (tp, k)" by (cases p)
    with tok [OF pin] have "timer_ok st (tp, k)" by simp
    then obtain sdk where lt: "tp < next_timer st"
      and mk: "map_of (activeHelperSessions st) k = Some sdk" and hk: "turnTimeoutId sdk = Some tp"
      unfolding timer_ok_iff by blast
    have "k \<noteq> sid"
    proof
      assume "k = sid"
      with mk m hk h0 pn pk show False by simp
    qed
    with lt mk hk pk show "timer_ok st' p"
      by (simp add: timer_ok_iff mp n)
  next
    fix sdx tx p
    assume x: "map_of (activeHelperSessions st') sid = Some sdx \<and> turnTimeoutId sdx = Some tx"
      and p: "p \<in> set (timers st')" and e: "fst p = tx"
    from x have "sdx = sd'" by (simp add: mp)
    with x h h0 have "tx = t0" by auto
    with p e show "snd p = sid" by (simp add: tm)
  qed
qed

lemma accept_roll_inv:
  assumes inv: "helper_inv st"
    and f: "find P (activeHelperSessions st) = Some (sid, sd)"
  shows "inv_except sid (accept_roll msg userId v (sid, sd) st)"
    and "map_of (activeHelperSessions (accept_roll msg userId v (sid, sd) st)) sid = Some (record_roll v sd)"
    and "session_core (accept_roll msg userId v (sid, sd) st) (sid, record_roll v sd)"
proof -
  from inv have dk: "distinct (map fst (activeHelperSessions st))" by (simp add: helper_inv_alt)
  have m: "map_of (activeHelperSessions st) sid = Some sd"
    by (rule find_in_Map [OF dk f])
  show "inv_except sid (accept_roll msg userId v (sid, sd) st)"
    by (rule disarm_gives_inv_except [OF inv m, of _ "record_roll v sd"])
       (simp_all add: accept_roll_fields record_roll_fields)
  show "map_of (activeHelperSessions (accept_roll msg userId v (sid, sd) st)) sid = Some (record_roll v sd)"
    by (simp add: accept_roll_fields update_conv')
  from inv m have "session_ok st (sid, sd)" by (simp add: helper_inv_alt)
  then have "session_core st (sid, sd)" by (simp add: session_ok_iff)
  then show "session_core (accept_roll msg userId v (sid, sd) st) (sid, record_roll v sd)"
    by (simp add: session_core_def accept_roll_fields record_roll_fields scores_consistent_record_roll)
qed

lemma on_message_keeps_inv:
  assumes inv: "helper_inv st"
  shows "helper_inv (snd (on_message dbFails now msg st))"
proof (cases dbFails now msg st rule: on_message_cases)
  case ignored
  with inv show ?thesis by simp
next
  case (finalized v found fs)
  obtain sid sd where fd: "found = (sid, sd)" by (cases found)
  from finalized(4) have "fs \<noteq> pending_pickup" by auto
  then show ?thesis
    unfolding finalized(5) snd_conv fd fst_conv
    by (rule finalize_restores_inv [OF accept_roll_inv(1) [OF inv finalized(1) [unfolded fd]]])
next
  case (continued v found)
  obtain sid sd where fd: "found = (sid, sd)" by (cases found)
  note a = accept_roll_inv [OF inv continued(1) [unfolded fd], of msg "fst (the (msg_from msg))" v]
  show ?thesis
    unfolding continued(6) fd fst_conv
    by (rule prompt_restores_inv [OF a])
qed

lemma timer_fires_keeps_inv:
  assumes inv: "helper_inv st"
  shows "helper_inv (timer_fires dbFails now t st)"
proof (cases "map_of (timers st) t")
  case None
  with inv show ?thesis by (simp add: timer_fires_def)
next
  case (Some sid)
  then have tin: "(t, sid) \<in> set (timers st)" by (rule map_of_SomeD)
  from inv have tok: "timer_ok st (t, sid)" using tin by (simp add: helper_inv_alt)
  then obtain sd where m: "map_of (activeHelperSessions st) sid = Some sd"
    and h: "turnTimeoutId sd = Some t"
    unfolding timer_ok_iff by blast
  from inv m have "session_ok st (sid, sd)" by (simp add: helper_inv_alt)
  then have act: "status sd = active_by_helper" by (simp add: session_ok_def)
  let ?st1 = "st\<lparr>timers := filter (\<lambda>p. fst p \<noteq> t) (timers st)\<rparr>"
  let ?st2 = "?st1\<lparr>console := console ?st1 @ [User_timed_out (user_id sd)]\<rparr>"
  have "AList.update sid sd (activeHelperSessions st) = activeHelperSessions st"
    by (rule update_triv [OF m])
  then have "inv_except sid ?st2"
    by (intro disarm_gives_inv_except [OF inv m, of _ sd]) (simp_all add: h)
  then have "helper_inv (finalizeJackpotSession dbFails now sid completed_timeout_forfeit
                (current_total_score sd) (jackpot_run_rolls sd) Turn_timed_out ?st2)"
    by (rule finalize_restores_inv) simp
  with Some m act show ?thesis
    by (simp add: timer_fires_def handleJackpotRunTurnTimeout_def)
qed

lemma send_failure_keeps_inv:
  "helper_inv st \<Longrightarrow> helper_inv (sendMessage_rejected dbFails now errorCode sid sd st)"
  by (simp add: sendMessage_rejected_def finalize_keeps_inv)

lemma enqueue_keeps_inv:
  assumes inv: "helper_inv st"
  shows "helper_inv (enqueue r st)"
proof (cases "status r = pending_pickup \<and> session_id r \<notin> set (map session_id (stored st))")
  case False
  then have "enqueue r st = st" by (auto simp: enqueue_def)
  with inv show ?thesis by simp
next
  case True
  have c: "session_core (st\<lparr>stored := stored st @ [r]\<rparr>) e" if "session_core st e" for e
    using that True by (auto simp: session_core_def)
  have "session_ok (st\<lparr>stored := stored st @ [r]\<rparr>) e" if "session_ok st e" for e
    using that c [of e] by (cases e) (simp add: session_ok_iff)
  with inv have "helper_inv (st\<lparr>stored := stored st @ [r]\<rparr>)"
    by (simp add: helper_inv_alt timer_ok_def)
  with True show ?thesis by (simp add: enqueue_def)
qed

lemma stored_change_keeps_inv:
  assumes inv: "helper_inv st"
    and ev: "claim_evolved (stored st) (stored st')"
    and same: "activeHelperSessions st' = activeHelperSessions st" "timers st' = timers st"
      "next_timer st' = next_timer st"
  shows "helper_inv st'"
proof -
  have "session_ok st' e" if "session_ok st e" for e
    using that ev same(2)
    by (cases e) (auto simp: session_ok_iff session_core_def not_pending_iff claim_evolved_def)
  moreover have "timer_ok st' = timer_ok st"
    by (rule timer_ok_cong [OF same(1,3)])
  ultimately show ?thesis
    using inv unfolding helper_inv_alt same by simp
qed

lemma claim_attempt_result:
  "\<exists>tbl' c. snd (claim_attempt env st) = st\<lparr>stored := tbl', console := c\<rparr> \<and>
            claim_evolved (stored st) tbl' \<and>
            (\<forall>r. fst (claim_attempt env st) = Claimed r \<longrightarrow>
                 status r = active_by_helper \<and> pending_row (session_id r) (stored st) \<and>
                 \<not> pending_row (session_id r) tbl')"
proof (cases env st rule: claim_attempt_cases)
  case (rolled_back tbl' c)
  from rolled_back(2) have "claim_evolved (stored st) tbl'"
    using claim_evolved_refl claim_evolved_commits by metis
  then show ?thesis
    unfolding rolled_back(1) by (intro exI [of _ tbl'] exI [of _ c]) simp
next
  case no_rows
  show ?thesis
    unfolding no_rows(1)
    by (intro exI [of _ "stored st"] exI [of _ "console st"]) (simp add: claim_evolved_refl)
next
  case (zero_rows sessionToClaim c)
  have "claim_evolved (stored st) (commit_claims (rivals env) (stored st))"
    by (rule claim_evolved_commits [OF claim_evolved_refl])
  then show ?thesis
    unfolding zero_rows(3)
    by (intro exI [of _ "commit_claims (rivals env) (stored st)"] exI [of _ c]) simp
next
  case (claimed sessionToClaim claimedRow rest c)
  let ?sid = "session_id sessionToClaim"
  let ?tbl1 = "commit_claims (rivals env) (stored st)"
  let ?res = "claim_update (botUsername st) (claim_now env) ?sid ?tbl1"
  have ev1: "claim_evolved (stored st) ?tbl1"
    by (rule claim_evolved_commits [OF claim_evolved_refl])
  have ev2: "claim_evolved (stored st) (fst ?res)"
    by (rule claim_evolved_update [OF ev1])
  from claimed(2) have "claimedRow \<in> set (snd ?res)" by simp
  then have r: "session_id claimedRow = ?sid" "status claimedRow = active_by_helper"
    using claim_update_returned by blast+
  from claimed(2) have "pending_row ?sid ?tbl1"
    using claim_update_none [of "botUsername st" "claim_now env" ?sid ?tbl1] by simp
  with ev1 have p: "pending_row ?sid (stored st)"
    by (simp add: claim_evolved_def)
  have np: "\<not> pending_row ?sid (fst ?res)"
    by (rule claim_update_takes_all)
  show ?thesis
    unfolding claimed(3)
    by (intro exI [of _ "fst ?res"] exI [of _ c]) (simp add: ev2 r p np)
qed

lemma new_session_data_fields:
  "status (new_session_data r) = status r"
  "jackpot_pool_at_session_start (new_session_data r) = jackpot_pool_at_session_start r"
  "turnTimeoutId (new_session_data r) = None"
  "jackpot_run_rolls (new_session_data r) = []"
  "jackpot_run_score (new_session_data r) = 0"
  "current_total_score (new_session_data r) = Num (parseInt10 (initial_score r))"
  "initial_score (new_session_data r) = initial_score r"
  by (simp_all add: new_session_data_def)

lemma scores_consistent_new: "scores_consistent (new_session_data r)"
  by (simp add: scores_consistent_def new_session_data_fields)

lemma initiate_session_keeps_inv:
  assumes inv: "helper_inv st"
    and new: "map_of (activeHelperSessions st) (session_id r) = None"
    and act: "status r = active_by_helper"
    and "session_id r \<in> session_id ` set (stored st)"
    and "\<not> pending_row (session_id r) (stored st)"
  shows "helper_inv (initiate_session env r st)"
proof -
  let ?sid = "session_id r"
  let ?st1 = "st\<lparr>activeHelperSessions :=
                   AList.update ?sid (new_session_data r) (activeHelperSessions st)\<rparr>"
  have m: "map_of (activeHelperSessions ?st1) ?sid = Some (new_session_data r)"
    by (simp add: update_conv')
  have mp: "map_of (activeHelperSessions ?st1) k =
              (if k = ?sid then Some (new_session_data r) else map_of (activeHelperSessions st) k)"
    for k
    by (simp add: update_conv')
  from inv have dk: "distinct (map fst (activeHelperSessions st))"
    and all: "\<And>k sd. map_of (activeHelperSessions st) k = Some sd \<Longrightarrow> session_ok st (k, sd)"
    and dt: "distinct (map fst (timers st))"
    and tok: "\<And>p. p \<in> set (timers st) \<Longrightarrow> timer_ok st p"
    unfolding helper_inv_alt by blast+
  have so: "session_ok ?st1 = session_ok st"
    by (rule session_ok_cong) simp_all
  have ex: "inv_except ?sid ?st1"
    unfolding inv_except_def
  proof (intro conjI allI impI ballI)
    show "distinct (map fst (activeHelperSessions ?st1))"
      using dk by (simp add: distinct_update)
    show "distinct (map fst (timers ?st1))" using dt by simp
  next
    fix k sd
    assume "map_of (activeHelperSessions ?st1) k = Some sd \<and> k \<noteq> ?sid"
    then have "map_of (activeHelperSessions st) k = Some sd" by (auto simp: update_conv')
    then show "session_ok ?st1 (k, sd)" unfolding so by (rule all)
  next
    fix p
    assume "p \<in> set (timers ?st1)"
    then have pin: "p \<in> set (timers st)" by simp
    obtain t k where pk: "p = (t, k)" by (cases p)
    with tok [OF pin] have "timer_ok st (t, k)" by simp
    then obtain sd where lt: "t < next_timer st"
      and mk: "map_of (activeHelperSessions st) k = Some sd" and h: "turnTimeoutId sd = Some t"
      unfolding timer_ok_iff by blast
    from mk new have "k \<noteq> ?sid" by auto
    with lt mk h pk show "timer_ok ?st1 p" by (simp add: timer_ok_iff update_conv')
  next
    fix sd t p
    assume a: "map_of (activeHelperSessions ?st1) ?sid = Some sd \<and> turnTimeoutId sd = Some t"
    then have "sd = new_session_data r" by (simp add: update_conv')
    then have "turnTimeoutId sd = None" by (simp only: new_session_data_fields)
    with a have False by simp
    then show "snd p = ?sid" ..
  qed
  show ?thesis
  proof (cases "jackpot_pool_at_session_start r")
    case None
    have "sendJackpotRunUpdate ?sid None ?st1 = (Some BigInt_rejects, ?st1)"
      by (rule sjru_error_state [OF m]) (simp_all add: new_session_data_fields None)
    moreover have "inv_except ?sid (?st1\<lparr>console := console ?st1 @ [Init_prompt_error ?sid]\<rparr>) =
                   inv_except ?sid ?st1"
      by (rule inv_except_cong) simp_all
    with ex have "inv_except ?sid (?st1\<lparr>console := console ?st1 @ [Init_prompt_error ?sid]\<rparr>)"
      by blast
    then have "helper_inv (finalizeJackpotSession (init_finalize_fails env) (claim_now env) ?sid
                 error_helper_init_prompt (Num (parseInt10 (initial_score r))) [] Failed_initial_prompt
                 (?st1\<lparr>console := console ?st1 @ [Init_prompt_error ?sid]\<rparr>))"
      by (rule finalize_restores_inv) simp
    ultimately show ?thesis
      unfolding initiate_session_def Let_def by (simp only: fst_conv snd_conv option.case)
  next
    case (Some x)
    have core: "session_core ?st1 (?sid, new_session_data r)"
      using assms(3-5) Some
      by (simp add: session_core_def new_session_data_fields scores_consistent_new not_pending_iff)
    have "helper_inv (snd (sendJackpotRunUpdate ?sid None ?st1))"
      by (rule prompt_restores_inv [OF ex m core])
    moreover have "fst (sendJackpotRunUpdate ?sid None ?st1) = None"
      by (rule sjru_ok_fields(1) [OF m]) (simp_all add: new_session_data_fields Some act)
    ultimately show ?thesis
      unfolding initiate_session_def Let_def by (simp only: option.case)
  qed
qed

lemma claim_attempt_keeps_inv:
  assumes inv: "helper_inv st"
  shows "helper_inv (snd (claim_attempt env st))"
    and "fst (claim_attempt env st) = Claimed r \<Longrightarrow>
           map_of (activeHelperSessions (snd (claim_attempt env st))) (session_id r) = None \<and>
           status r = active_by_helper \<and>
           session_id r \<in> session_id ` set (stored (snd (claim_attempt env st))) \<and>
           \<not> pending_row (session_id r) (stored (snd (claim_attempt env st)))"
proof -
  from claim_attempt_result [of env st] obtain tbl' c where
      s: "snd (claim_attempt env st) = st\<lparr>stored := tbl', console := c\<rparr>"
      and ev: "claim_evolved (stored st) tbl'"
      and cl: "\<And>r. fst (claim_attempt env st) = Claimed r \<Longrightarrow>
                 status r = active_by_helper \<and> pending_row (session_id r) (stored st) \<and>
                 \<not> pending_row (session_id r) tbl'"
    by blast
  show "helper_inv (snd (claim_attempt env st))"
    unfolding s by (rule stored_change_keeps_inv [OF inv]) (simp_all add: ev)
  assume "fst (claim_attempt env st) = Claimed r"
  from cl [OF this] have a: "status r = active_by_helper"
    and p: "pending_row (session_id r) (stored st)" and np: "\<not> pending_row (session_id r) tbl'"
    by blast+
  have "map_of (activeHelperSessions st) (session_id r) = None"
  proof (cases "map_of (activeHelperSessions st) (session_id r)")
    case (Some sd)
    with inv have "session_ok st (session_id r, sd)" by (simp add: helper_inv_alt)
    then have "\<not> pending_row (session_id r) (stored st)"
      by (simp add: session_ok_iff session_core_def not_pending_iff)
    with p show ?thesis by simp
  qed simp
  moreover from p have "session_id r \<in> session_id ` set tbl'"
    using ev pending_row_id [of "session_id r" "stored st"] by (simp add: claim_evolved_def)
  ultimately show "map_of (activeHelperSessions (snd (claim_attempt env st))) (session_id r) = None \<and>
           status r = active_by_helper \<and>
           session_id r \<in> session_id ` set (stored (snd (claim_attempt env st))) \<and>
           \<not> pending_row (session_id r) (stored (snd (claim_attempt env st)))"
    using a np by (simp add: s)
qed

lemma claim_loop_keeps_inv:
  "helper_inv st \<Longrightarrow> helper_inv (snd (claim_loop envs n i k st))"
proof (induction k arbitrary: i st)
  case 0
  then show ?case by simp
next
  case (Suc k)
  show ?case
  proof (cases "isShuttingDownHelper st")
    case True
    with Suc.prems show ?thesis by simp
  next
    case False
    obtain res st1 where ca: "claim_attempt (envs i) st = (res, st1)"
      by (cases "claim_attempt (envs i) st")
    have inv1: "helper_inv st1"
      using claim_attempt_keeps_inv(1) [OF Suc.prems, of "envs i"] ca by simp
    show ?thesis
    proof (cases res)
      case (Claimed r)
      have "helper_inv (initiate_session (envs i) r st1)"
        using claim_attempt_keeps_inv(2) [OF Suc.prems, of "envs i" r] ca Claimed
        by (intro initiate_session_keeps_inv [OF inv1]) simp_all
      then have "helper_inv (snd (claim_loop envs n (Suc i) k (initiate_session (envs i) r st1)))"
        by (rule Suc.IH)
      with False ca Claimed \<open>helper_inv (initiate_session (envs i) r st1)\<close> show ?thesis
        by (simp add: Let_def)
    next
      case No_rows
      with False ca inv1 show ?thesis by simp
    next
      case (Zero_rows sid)
      with False ca inv1 show ?thesis by simp
    next
      case Rolled_back
      with False ca inv1 show ?thesis by simp
    qed
  qed
qed

lemma poll_keeps_inv:
  "helper_inv st \<Longrightarrow> helper_inv (snd (checkAndInitiateJackpotSessions maxSessions envs st))"
  by (simp add: checkAndInitiateJackpotSessions_def Let_def claim_loop_keeps_inv)

lemma apply_event_keeps_inv: "helper_inv st \<Longrightarrow> helper_inv (apply_event st e)"
  by (cases e)
     (simp_all add: poll_keeps_inv on_message_keeps_inv timer_fires_keeps_inv
        send_failure_keeps_inv enqueue_keeps_inv)

lemma run_events_keeps_inv: "helper_inv st \<Longrightarrow> helper_inv (run_events st evs)"
  unfolding run_events_def
  by (induction evs arbitrary: st) (simp_all add: apply_event_keeps_inv)

lemma initial_state_inv: "helper_inv (initial_state botName tbl)"
  by (simp add: helper_inv_def initial_state_def)

lemma reachable_inv: "helper_inv (run_events (initial_state botName tbl) evs)"
  by (rule run_events_keeps_inv [OF initial_state_inv])

lemma reachable_scores:
  assumes "st = run_events (initial_state botName tbl) evs"
    and "map_of (activeHelperSessions st) sid = Some sd"
  shows "jackpot_run_score sd = sum_list (jackpot_run_rolls sd)"
    and "current_total_score sd =
           (if jackpot_run_rolls sd = [] then Num (parseInt10 (initial_score sd))
            else js_add (initial_score sd) (jackpot_run_score sd))"
proof -
  have "helper_inv st"
    unfolding assms(1) by (rule reachable_inv)
  with assms(2) have "session_ok st (sid, sd)" by (simp add: helper_inv_alt)
  then have "scores_consistent sd" by (simp add: session_ok_def)
  then show "jackpot_run_score sd = sum_list (jackpot_run_rolls sd)"
    and "current_total_score sd =
           (if jackpot_run_rolls sd = [] then Num (parseInt10 (initial_score sd))
            else js_add (initial_score sd) (jackpot_run_score sd))"
    by (simp_all add: scores_consistent_def)
qed

lemma pending_timers_of_inv:
  assumes inv: "helper_inv st"
  shows "pending_timers sid st =
           (case map_of (activeHelperSessions st) sid of
              None \<Rightarrow> []
            | Some sd \<Rightarrow> (case turnTimeoutId sd of None \<Rightarrow> [] | Some t \<Rightarrow> [t]))"
proof -
  from inv have all: "\<And>k sd. map_of (activeHelperSessions st) k = Some sd \<Longrightarrow> session_ok st (k, sd)"
    and dt: "distinct (map fst (timers st))"
    and tok: "\<And>p. p \<in> set (timers st) \<Longrightarrow> timer_ok st p"
    unfolding helper_inv_alt by blast+
  have dist: "distinct (pending_timers sid st)"
    unfolding pending_timers_def using dt by (rule distinct_map_filter)
  have mem: "t \<in> set (pending_timers sid st) \<longleftrightarrow> (t, sid) \<in> set (timers st)" for t
    by (force simp: pending_timers_def)
  show ?thesis
  proof (cases "map_of (activeHelperSessions st) sid")
    case None
    have "pending_timers sid st = []"
    proof (cases "pending_timers sid st")
      case (Cons t rest)
      then have "t \<in> set (pending_timers sid st)" by simp
      then have "(t, sid) \<in> set (timers st)" by (simp only: mem)
      from tok [OF this] None have False by (simp add: timer_ok_iff)
      then show ?thesis ..
    qed
    with None show ?thesis by simp
  next
    case (Some sd)
    from all [OF Some] obtain t where h: "turnTimeoutId sd = Some t" and t: "(t, sid) \<in> set (timers st)"
      unfolding session_ok_iff by blast
    have "set (pending_timers sid st) = {t}"
    proof (rule set_eqI)
      fix t'
      have "t' = t" if "(t', sid) \<in> set (timers st)"
        using tok [OF that] Some h by (simp add: timer_ok_iff)
      with t show "t' \<in> set (pending_timers sid st) \<longleftrightarrow> t' \<in> {t}"
        unfolding mem by auto
    qed
    with dist have "pending_timers sid st = [t]"
    proof (cases "pending_timers sid st")
      case Nil
      with \<open>set (pending_timers sid st) = {t}\<close> show ?thesis by simp
    next
      case (Cons a rest)
      with \<open>set (pending_timers sid st) = {t}\<close> have a: "a = t" and r: "set rest \<subseteq> {t}" by auto
      from dist Cons a have "t \<notin> set rest" by simp
      with r have "rest = []" by (cases rest) auto
      with Cons a show ?thesis by simp
    qed
    with Some h show ?thesis by simp
  qed
qed

lemma pending_after_clear:
  "map fst (filter (\<lambda>p. snd p = sid) (filter (\<lambda>p. fst p \<noteq> t) xs)) =
   filter (\<lambda>x. x \<noteq> t) (map fst (filter (\<lambda>p. snd p = sid) xs))"
  by (induction xs) simp_all

section \<open>Exclusive claims\<close>

text \<open>
  C1. Any number of loop passes (\<open>claim_attempt\<close>, lines 89 to 140) of any instances run
  on one table, each with any store fault, any set of rows its \<^verbatim>\<open>SELECT\<close> skips as locked,
  and a \<^verbatim>\<open>SELECT\<close> that ran before any number of the commits its \<^verbatim>\<open>UPDATE\<close> sees. Every pass
  ends, under the name of its instance. For every session \<open>s\<close>: at most one pass ends with
  \<open>s\<close> as its \<^verbatim>\<open>claimedSessionData\<close>, so no two callers receive the same session. Whenever a
  pass saw zero rows affected for \<open>s\<close>, exactly one pass received \<open>s\<close>. A session that was
  received was pending in the first table and none of its rows is pending any more;
  the row each winner received is in the table, \<^verbatim>\<open>active_by_helper\<close> and under the winner's
  name. And the passes do transition the row: a pass without a store fault whose
  \<^verbatim>\<open>SELECT\<close> returned a row of \<open>s\<close> ends with the claim when a row of \<open>s\<close> is still pending
  at its \<^verbatim>\<open>UPDATE\<close> (the table then holds the updated rows, and the pass received the
  first of them), and with zero rows affected when none is.
\<close>

theorem claim_exclusive:
  assumes "w = run_attempts tbl as"
  shows "map fst (results w) = map (\<lambda>a. botUsername (fst a)) as \<and>
         length (winners s w) \<le> 1 \<and>
         (losers s w \<noteq> [] \<longrightarrow> length (winners s w) = 1) \<and>
         (winners s w \<noteq> [] \<longrightarrow> pending_row s tbl \<and> \<not> pending_row s (table w)) \<and>
         list_all (holds_claim w) (results w) \<and>
         (fault env = No_fault \<and>
          select_pending (locked_rows env) (snapshot m w) = Some sessionToClaim \<longrightarrow>
            world_step w (st, m, env) =
              (if pending_row (session_id sessionToClaim) (table w) then
                 w\<lparr>commits := commits w @
                                [(botUsername st, claim_now env, session_id sessionToClaim)],
                   table := fst (claim_update (botUsername st) (claim_now env)
                                   (session_id sessionToClaim) (table w)),
                   results := results w @
                     [(botUsername st,
                       Claimed (hd (snd (claim_update (botUsername st) (claim_now env)
                                           (session_id sessionToClaim) (table w)))))]\<rparr>
               else w\<lparr>results := results w @
                         [(botUsername st, Zero_rows (session_id sessionToClaim))]\<rparr>))"
proof -
  let ?f = "\<lambda>e :: string \<times> attempt_result. claimed_session (snd e)"
  have inv: "world_inv w"
    unfolding assms by (rule world_inv_attempts)
  have t0: "table0 w = tbl"
    unfolding assms by (rule table0_attempts)
  from inv have tb: "table w = commit_claims (commits w) (table0 w)"
    and cs: "map claim_session (commits w) = List.map_filter ?f (results w)"
    and di: "distinct (map claim_session (commits w))"
    and pe: "\<forall>c \<in> set (commits w). pending_row (claim_session c) (table0 w)"
    and zr: "\<forall>e \<in> set (results w). \<forall>s. snd e = Zero_rows s \<longrightarrow> s \<in> claim_session ` set (commits w)"
    and hc: "list_all (holds_claim w) (results w)"
    unfolding world_inv_def by blast+
  have names: "map fst (results w) = map (\<lambda>a. botUsername (fst a)) as"
    unfolding assms run_attempts_def results_names_run by simp
  have won_iff: "winners s w \<noteq> [] \<longleftrightarrow> s \<in> claim_session ` set (commits w)"
  proof -
    have "s \<in> claim_session ` set (commits w) \<longleftrightarrow> s \<in> set (List.map_filter ?f (results w))"
      unfolding cs [symmetric] by simp
    then show ?thesis
      by (simp add: winners_def map_filter_member filter_empty_conv)
  qed
  from di have "distinct (List.map_filter ?f (results w))"
    unfolding cs .
  then have one: "length (winners s w) \<le> 1"
    unfolding winners_def by (rule distinct_map_filter_once)
  have lose: "length (winners s w) = 1" if "losers s w \<noteq> []"
  proof -
    from that obtain e where "e \<in> set (results w)" "snd e = Zero_rows s"
      by (auto simp: losers_def filter_empty_conv)
    with zr have "s \<in> claim_session ` set (commits w)" by blast
    then have "winners s w \<noteq> []" by (simp add: won_iff)
    then have "length (winners s w) \<noteq> 0" by simp
    with one show ?thesis by linarith
  qed
  have gone: "pending_row s tbl \<and> \<not> pending_row s (table w)" if "winners s w \<noteq> []"
  proof -
    from that have m: "s \<in> claim_session ` set (commits w)" by (simp add: won_iff)
    with pe have "pending_row s (table0 w)" by auto
    moreover from m have "\<not> pending_row s (table w)"
      unfolding tb pending_after_commits by simp
    ultimately show ?thesis by (simp add: t0)
  qed
  note step = world_step_no_fault [OF tb, of env m sessionToClaim st]
  from names one lose gone hc step show ?thesis
    by blast
qed

text \<open>
  At a concrete input, the passes of \<open>ex_attempts\<close> on the two pending rows: \<open>g\<close> receives
  session 1; \<open>h\<close>, which selected the same row, sees zero rows affected; the pass whose
  \<^verbatim>\<open>COMMIT\<close> rejects receives nothing and leaves row 2 pending, and \<open>k\<close> receives it. A
  further pass of \<open>h\<close> that selected row 2 before the commit of \<open>k\<close> sees zero rows.
\<close>

theorem claim_exclusive_witness:
  "map fst (results (run_attempts [ex_row, ex_row2] ex_attempts)) = [''g'', ''h'', ''h'', ''k''] \<and>
   map snd (results (run_attempts [ex_row, ex_row2] ex_attempts)) =
     [Claimed (ex_row\<lparr>status := active_by_helper, helper_bot_id := Some ''g'', updated_at := 10\<rparr>),
      Zero_rows 1, Rolled_back,
      Claimed (ex_row2\<lparr>status := active_by_helper, helper_bot_id := Some ''k'', updated_at := 13\<rparr>)] \<and>
   length (winners 1 (run_attempts [ex_row, ex_row2] ex_attempts)) = 1 \<and>
   losers 1 (run_attempts [ex_row, ex_row2] ex_attempts) = [(''h'', Zero_rows 1)] \<and>
   pending_row 1 [ex_row, ex_row2] \<and>
   table (run_attempts [ex_row, ex_row2] ex_attempts) =
     [ex_row\<lparr>status := active_by_helper, helper_bot_id := Some ''g'', updated_at := 10\<rparr>,
      ex_row2\<lparr>status := active_by_helper, helper_bot_id := Some ''k'', updated_at := 13\<rparr>] \<and>
   fault (ex_env\<lparr>claim_now := 14\<rparr>) = No_fault \<and>
   select_pending (locked_rows (ex_env\<lparr>claim_now := 14\<rparr>))
     (snapshot 1 (run_attempts [ex_row, ex_row2] ex_attempts)) = Some ex_row2 \<and>
   results (world_step (run_attempts [ex_row, ex_row2] ex_attempts)
              (initial_state ''h'' [], 1, ex_env\<lparr>claim_now := 14\<rparr>)) =
     results (run_attempts [ex_row, ex_row2] ex_attempts) @ [(''h'', Zero_rows 2)]"
  using claim_exclusive [of "run_attempts [ex_row, ex_row2] ex_attempts" "[ex_row, ex_row2]"
          ex_attempts 1 "ex_env\<lparr>claim_now := 14\<rparr>" 1 ex_row2 "initial_state ''h'' []"]
  by (simp add: eval_defs winners_def losers_def pending_row_def)

section \<open>Bust before target\<close>



section \<open>Finalizing twice\<close>

text \<open>
  C3, as amended. Once the rows of a session are past \<^verbatim>\<open>active_by_helper\<close>, a later
  \<^verbatim>\<open>finalizeJackpotSession\<close> for it leaves the table and the outbox alone and reports that
  nothing was updated when the store call fails or when no row of the session carries
  the caller's name in \<^verbatim>\<open>helper_bot_id\<close>. A later call by the helper that is named in
  \<^verbatim>\<open>helper_bot_id\<close> is written again: it overwrites those rows and reports the update.
\<close>

theorem refinalize_only_by_owner:
  assumes "\<forall>r \<in> set (stored st). session_id r = sid \<longrightarrow> status r \<noteq> active_by_helper"
  shows "((dbFails \<or> (\<forall>r \<in> set (stored st). session_id r = sid \<longrightarrow> helper_bot_id r \<noteq> Some (botUsername st))) \<longrightarrow>
            stored (finalizeJackpotSession dbFails now sid fs sc rolls note st) = stored st \<and>
            outbox (finalizeJackpotSession dbFails now sid fs sc rolls note st) = outbox st \<and>
            last (console (finalizeJackpotSession dbFails now sid fs sc rolls note st)) =
              (if dbFails then Finalize_db_error sid else Did_not_update sid)) \<and>
         (\<not> dbFails \<and> (\<exists>r \<in> set (stored st). session_id r = sid \<and> helper_bot_id r = Some (botUsername st)) \<longrightarrow>
            last (console (finalizeJackpotSession dbFails now sid fs sc rolls note st)) =
              Db_record_updated sid fs \<and>
            stored (finalizeJackpotSession dbFails now sid fs sc rolls note st) =
              map (\<lambda>r. if session_id r = sid \<and> helper_bot_id r = Some (botUsername st)
                        then finalize_set fs sc
                               (initialRolls_of (map_of (activeHelperSessions st) sid) @ rolls) note now r
                        else r) (stored st))"
proof -
  have m: "finalize_matches sid (botUsername st) r \<longleftrightarrow>
             session_id r = sid \<and> helper_bot_id r = Some (botUsername st)"
    if "r \<in> set (stored st)" for r
    using assms that by (auto simp: finalize_matches_def)
  have a: "stored (finalizeJackpotSession dbFails now sid fs sc rolls note st) = stored st \<and>
            outbox (finalizeJackpotSession dbFails now sid fs sc rolls note st) = outbox st \<and>
            last (console (finalizeJackpotSession dbFails now sid fs sc rolls note st)) =
              (if dbFails then Finalize_db_error sid else Did_not_update sid)"
    if "dbFails \<or> (\<forall>r \<in> set (stored st). session_id r = sid \<longrightarrow> helper_bot_id r \<noteq> Some (botUsername st))"
  proof (cases dbFails)
    case True
    then show ?thesis by (simp add: fin_stored fin_outbox fin_console)
  next
    case False
    with that have none: "\<forall>r \<in> set (stored st). \<not> finalize_matches sid (botUsername st) r"
      using m by blast
    then have "\<not> snd (finalize_update fs sc (initialRolls_of (map_of (activeHelperSessions st) sid) @ rolls)
                note sid (botUsername st) now (stored st)) > 0"
      by (simp only: finalize_update_count) blast
    with none False show ?thesis
      by (simp add: fin_stored fin_outbox fin_console finalize_update_noop)
  qed
  have b: "last (console (finalizeJackpotSession dbFails now sid fs sc rolls note st)) =
              Db_record_updated sid fs \<and>
            stored (finalizeJackpotSession dbFails now sid fs sc rolls note st) =
              map (\<lambda>r. if session_id r = sid \<and> helper_bot_id r = Some (botUsername st)
                        then finalize_set fs sc
                               (initialRolls_of (map_of (activeHelperSessions st) sid) @ rolls) note now r
                        else r) (stored st)"
    if "\<not> dbFails" and "\<exists>r \<in> set (stored st). session_id r = sid \<and> helper_bot_id r = Some (botUsername st)"
  proof -
    from that(2) have "\<exists>r \<in> set (stored st). finalize_matches sid (botUsername st) r"
      using m by blast
    then have c: "snd (finalize_update fs sc (initialRolls_of (map_of (activeHelperSessions st) sid) @ rolls)
                note sid (botUsername st) now (stored st)) > 0"
      by (simp only: finalize_update_count)
    have "fst (finalize_update fs sc (initialRolls_of (map_of (activeHelperSessions st) sid) @ rolls)
                note sid (botUsername st) now (stored st)) =
          map (\<lambda>r. if session_id r = sid \<and> helper_bot_id r = Some (botUsername st)
                        then finalize_set fs sc
                               (initialRolls_of (map_of (activeHelperSessions st) sid) @ rolls) note now r
                        else r) (stored st)"
      unfolding finalize_update_def fst_conv
      by (rule map_cong) (simp_all add: m)
    with c that(1) show ?thesis
      by (simp add: fin_stored fin_console)
  qed
  from a b show ?thesis by blast
qed

theorem refinalize_only_by_owner_witness:
  "stored (finalizeJackpotSession False 12 1 completed_timeout_forfeit (Num 7) [] Turn_timed_out
             (ex_finalized\<lparr>botUsername := ''g''\<rparr>)) = stored ex_finalized \<and>
   last (console (finalizeJackpotSession False 12 1 completed_timeout_forfeit (Num 7) [] Turn_timed_out
             (ex_finalized\<lparr>botUsername := ''g''\<rparr>))) = Did_not_update 1 \<and>
   map status (stored (finalizeJackpotSession False 12 1 completed_timeout_forfeit (Num 7) [] Turn_timed_out
             ex_finalized)) = [completed_timeout_forfeit] \<and>
   last (console (finalizeJackpotSession False 12 1 completed_timeout_forfeit (Num 7) [] Turn_timed_out
             ex_finalized)) = Db_record_updated 1 completed_timeout_forfeit"
  using refinalize_only_by_owner [of "ex_finalized\<lparr>botUsername := ''g''\<rparr>" 1 False 12
          completed_timeout_forfeit "Num 7" "[]" Turn_timed_out]
        refinalize_only_by_owner [of ex_finalized 1 False 12
          completed_timeout_forfeit "Num 7" "[]" Turn_timed_out]
  by (simp add: ex_finalized_def initial_state_def ex_row_def finalize_set_def initialRolls_of_def)

text \<open>
  The claim as stated fails: the helper \<open>h\<close> finalizes session 1 as a bust, and a second call
  by \<open>h\<close> replaces the stored terminal status and is reported as an update.
\<close>

theorem refinalize_counterexample:
  "map status (stored (finalizeJackpotSession False 11 1 completed_bust (Num 8) [1] (Busted_on 1)
                         ex_claimed)) = [completed_bust] \<and>
   map status (stored (finalizeJackpotSession False 12 1 completed_timeout_forfeit (Num 7) [] Turn_timed_out
                         (finalizeJackpotSession False 11 1 completed_bust (Num 8) [1] (Busted_on 1)
                            ex_claimed))) = [completed_timeout_forfeit] \<and>
   last (console (finalizeJackpotSession False 12 1 completed_timeout_forfeit (Num 7) [] Turn_timed_out
                         (finalizeJackpotSession False 11 1 completed_bust (Num 8) [1] (Busted_on 1)
                            ex_claimed))) = Db_record_updated 1 completed_timeout_forfeit"
  by (simp add: ex_claimed_eq eval_defs)

section \<open>Scores follow the rolls\<close>

text \<open>
  C4. The claim says that after each accepted roll the total is \<^verbatim>\<open>initial_score\<close> plus the
  run score, in integer arithmetic: from 7, the rolls 4 and 5 give 9 and 16. The run
  score is the integer sum of the rolls. The total is not: line 250 adds the run score to
  \<^verbatim>\<open>initial_score\<close> as the driver delivered it, where lines 149 and 161 of the same file
  parse it first. For a row whose score arrives as the string \<^verbatim>\<open>"7"\<close> the total is the number
  7 after the claim, the string \<^verbatim>\<open>"74"\<close> after the roll 4 and \<^verbatim>\<open>"79"\<close> after the rolls 4 and
  5, with a run score of 9. With the target at 20 the roll 4 ends the run as a reached
  target, with \<^verbatim>\<open>"74"\<close> as the final score, where 7 + 4 is 11. For the same row with the
  score delivered as a number the rolls 4 and 5 give 9 and 16.
\<close>

theorem score_concatenation:
  "map (\<lambda>e. (jackpot_run_rolls (snd e), jackpot_run_score (snd e), current_total_score (snd e)))
     (activeHelperSessions
        (run_events (initial_state ''h'' [ex_row_text_far]) [Poll 1 (\<lambda>i. ex_env)])) =
     [([], 0, Num 7)] \<and>
   map (\<lambda>e. (jackpot_run_rolls (snd e), jackpot_run_score (snd e), current_total_score (snd e)))
     (activeHelperSessions
        (run_events (initial_state ''h'' [ex_row_text_far])
           [Poll 1 (\<lambda>i. ex_env), Dice False 11 (ex_dice 4)])) =
     [([4], 4, Str ''74'')] \<and>
   map (\<lambda>e. (jackpot_run_rolls (snd e), jackpot_run_score (snd e), current_total_score (snd e)))
     (activeHelperSessions
        (run_events (initial_state ''h'' [ex_row_text_far])
           [Poll 1 (\<lambda>i. ex_env), Dice False 11 (ex_dice 4), Dice False 12 (ex_dice 5)])) =
     [([4, 5], 9, Str ''79'')] \<and>
   activeHelperSessions
     (run_events (initial_state ''h'' [ex_row_text])
        [Poll 1 (\<lambda>i. ex_env), Dice False 11 (ex_dice 4)]) = [] \<and>
   map (\<lambda>r. (status r, final_score r, final_rolls_json r))
     (stored (run_events (initial_state ''h'' [ex_row_text])
                [Poll 1 (\<lambda>i. ex_env), Dice False 11 (ex_dice 4)])) =
     [(completed_target_reached, Some (Str ''74''), Some [3, 4, 4])] \<and>
   map (\<lambda>e. (jackpot_run_rolls (snd e), jackpot_run_score (snd e), current_total_score (snd e)))
     (activeHelperSessions
        (run_events (initial_state ''h'' [ex_row])
           [Poll 1 (\<lambda>i. ex_env), Dice False 11 (ex_dice 4), Dice False 12 (ex_dice 5)])) =
     [([4, 5], 9, Num 16)]"
  by (simp add: eval_defs)

section \<open>The persisted roll sequence\<close>

text \<open>
  C5, as amended. On every terminal path that finalizes a session while it is in the
  Map, the roll sequence handed to the conditional update is the session's initial
  rolls followed by the rolls of its run, in order: the turn timeout, a rejected send
  whose closure holds the object that is in the Map, a bust, a reached target, and
  a failed first prompt (where the run has no rolls yet).
\<close>

theorem persisted_rolls_of_live_session:
  "(map_of (activeHelperSessions st) sid = Some sd \<and> status sd = active_by_helper \<longrightarrow>
      stored (handleJackpotRunTurnTimeout False now sid st) =
        fst (finalize_update completed_timeout_forfeit (current_total_score sd) (combined_rolls sd)
               Turn_timed_out sid (botUsername st) now (stored st))) \<and>
   (map_of (activeHelperSessions st) sid = Some sd \<and> (errorCode = Some 403 \<or> errorCode = Some 400) \<longrightarrow>
      stored (sendMessage_rejected False now errorCode sid sd st) =
        fst (finalize_update error_sending_message (current_total_score sd) (combined_rolls sd)
               Helper_failed_to_send sid (botUsername st) now (stored st))) \<and>
   (\<not> isShuttingDownHelper st \<and> msg_dice msg = Some v \<and> msg_from msg = Some (userId, False) \<and>
    find (roll_matches userId (msg_chat msg)) (activeHelperSessions st) = Some (sid, sd) \<and>
    sid \<noteq> 0 \<and> v = bust_on_value sd \<longrightarrow>
      stored (snd (on_message False now msg st)) =
        fst (finalize_update completed_bust (current_total_score (record_roll v sd))
               (combined_rolls sd @ [v]) (Busted_on v) sid (botUsername st) now (stored st))) \<and>
   (\<not> isShuttingDownHelper st \<and> msg_dice msg = Some v \<and> msg_from msg = Some (userId, False) \<and>
    find (roll_matches userId (msg_chat msg)) (activeHelperSessions st) = Some (sid, sd) \<and>
    sid \<noteq> 0 \<and> v \<noteq> bust_on_value sd \<and>
    js_ge (current_total_score (record_roll v sd)) (target_jackpot_score sd) \<longrightarrow>
      stored (snd (on_message False now msg st)) =
        fst (finalize_update completed_target_reached (current_total_score (record_roll v sd))
               (combined_rolls sd @ [v])
               (Target_reached (target_jackpot_score sd) (current_total_score (record_roll v sd)))
               sid (botUsername st) now (stored st))) \<and>
   (jackpot_pool_at_session_start r = None \<and> \<not> init_finalize_fails env \<longrightarrow>
      stored (initiate_session env r st) =
        fst (finalize_update error_helper_init_prompt (Num (parseInt10 (initial_score r)))
               (combined_rolls (new_session_data r)) Failed_initial_prompt (session_id r)
               (botUsername st) (claim_now env) (stored st)))"
proof -
  have t: "stored (handleJackpotRunTurnTimeout False now sid st) =
        fst (finalize_update completed_timeout_forfeit (current_total_score sd) (combined_rolls sd)
               Turn_timed_out sid (botUsername st) now (stored st))"
    if "map_of (activeHelperSessions st) sid = Some sd" "status sd = active_by_helper"
    using that by (simp add: handleJackpotRunTurnTimeout_def fin_stored initialRolls_combined)
  have s: "stored (sendMessage_rejected False now errorCode sid sd st) =
        fst (finalize_update error_sending_message (current_total_score sd) (combined_rolls sd)
               Helper_failed_to_send sid (botUsername st) now (stored st))"
    if "map_of (activeHelperSessions st) sid = Some sd" "errorCode = Some 403 \<or> errorCode = Some 400"
    using that by (auto simp: sendMessage_rejected_def fin_stored initialRolls_combined)
  have live: "map_of (activeHelperSessions (accept_roll msg userId v (sid, sd) st)) sid = Some (record_roll v sd)"
    by (simp add: accept_roll_fields update_conv')
  have b: "stored (snd (on_message False now msg st)) =
        fst (finalize_update completed_bust (current_total_score (record_roll v sd))
               (combined_rolls sd @ [v]) (Busted_on v) sid (botUsername st) now (stored st))"
    if "\<not> isShuttingDownHelper st" "msg_dice msg = Some v" "msg_from msg = Some (userId, False)"
       "find (roll_matches userId (msg_chat msg)) (activeHelperSessions st) = Some (sid, sd)"
       "sid \<noteq> 0" "v = bust_on_value sd"
    using that live
    by (simp add: on_message_def Let_def fin_stored initialRolls_record_roll
          initialRolls_combined_app accept_roll_fields record_roll_fields)
  have g: "stored (snd (on_message False now msg st)) =
        fst (finalize_update completed_target_reached (current_total_score (record_roll v sd))
               (combined_rolls sd @ [v])
               (Target_reached (target_jackpot_score sd) (current_total_score (record_roll v sd)))
               sid (botUsername st) now (stored st))"
    if "\<not> isShuttingDownHelper st" "msg_dice msg = Some v" "msg_from msg = Some (userId, False)"
       "find (roll_matches userId (msg_chat msg)) (activeHelperSessions st) = Some (sid, sd)"
       "sid \<noteq> 0" "v \<noteq> bust_on_value sd"
       "js_ge (current_total_score (record_roll v sd)) (target_jackpot_score sd)"
    using that live
    by (simp add: on_message_def Let_def fin_stored initialRolls_record_roll
          initialRolls_combined_app accept_roll_fields record_roll_fields)
  have i: "stored (initiate_session env r st) =
        fst (finalize_update error_helper_init_prompt (Num (parseInt10 (initial_score r)))
               (combined_rolls (new_session_data r)) Failed_initial_prompt (session_id r)
               (botUsername st) (claim_now env) (stored st))"
    if "jackpot_pool_at_session_start r = None" "\<not> init_finalize_fails env"
  proof -
    let ?st1 = "st\<lparr>activeHelperSessions :=
                    AList.update (session_id r) (new_session_data r) (activeHelperSessions st)\<rparr>"
    have m: "map_of (activeHelperSessions ?st1) (session_id r) = Some (new_session_data r)"
      by (simp add: update_conv')
    have p: "jackpot_pool_at_session_start (new_session_data r) = None"
      using that(1) by (simp add: new_session_data_def)
    have c: "initialRolls_of (Some (new_session_data r\<lparr>turnTimeoutId := None\<rparr>)) @ [] =
             combined_rolls (new_session_data r)"
      by (simp add: initialRolls_of_def combined_rolls_def new_session_data_def)
    show ?thesis
      using that(2) sjru_error_fields [OF m p, of None] c
      by (simp add: initiate_session_def Let_def fin_stored)
  qed
  from t s b g i show ?thesis by blast
qed

theorem persisted_rolls_of_live_session_witness:
  "map_of (activeHelperSessions ex_claimed) 1 = Some ex_session \<and>
   map final_rolls_json (stored (handleJackpotRunTurnTimeout False 11 1 ex_claimed)) = [Some [3, 4]] \<and>
   map final_rolls_json (stored (sendMessage_rejected False 11 (Some 403) 1 ex_session ex_claimed)) =
     [Some [3, 4]] \<and>
   map final_rolls_json (stored (snd (on_message False 11 (ex_dice 1) ex_claimed))) =
     [Some [3, 4, 1]] \<and>
   map final_rolls_json (stored (snd (on_message False 11 (ex_dice 5) ex_near_target))) =
     [Some [3, 4, 5]] \<and>
   map final_rolls_json
     (stored (initiate_session ex_env
                (ex_row\<lparr>status := active_by_helper, jackpot_pool_at_session_start := None\<rparr>)
                (initial_state ''h''
                   [ex_row\<lparr>status := active_by_helper, jackpot_pool_at_session_start := None\<rparr>]))) =
     [Some [3, 4]]"
  using persisted_rolls_of_live_session [of ex_claimed 1 ex_session 11 "Some 403" "ex_dice 1" 1 5
          "ex_row\<lparr>status := active_by_helper, jackpot_pool_at_session_start := None\<rparr>" ex_env]
        persisted_rolls_of_live_session [of ex_near_target 1 "ex_session\<lparr>target_jackpot_score := 8\<rparr>" 11
          "Some 403" "ex_dice 5" 5 5
          "ex_row\<lparr>status := active_by_helper, jackpot_pool_at_session_start := None\<rparr>"
          "ex_env\<lparr>init_finalize_fails := True\<rparr>"]
  by (simp add: ex_claimed_eq ex_near_target_def ex_session_def eval_defs)

text \<open>
  The claim as stated fails on the error path: the send of a prompt is rejected after the
  session was finalized as a bust. The session is no longer in the Map, so the second
  update stores the run rolls alone, \<open>[1]\<close>, over \<open>[3, 4, 1]\<close>.
\<close>

theorem late_send_failure_counterexample:
  "combined_rolls (record_roll 1 ex_session) = [3, 4, 1] \<and>
   map final_rolls_json (stored (run_events ex_claimed [Dice False 11 (ex_dice 1)])) = [Some [3, 4, 1]] \<and>
   map final_rolls_json
     (stored (run_events ex_claimed
                [Dice False 11 (ex_dice 1),
                 Send_failed False 12 (Some 403) 1 (record_roll 1 ex_session)])) = [Some [1]]"
  by (simp add: ex_claimed_eq ex_session_def combined_rolls_def eval_defs)

section \<open>The conditional finalize write and the notification\<close>

text \<open>
  C6, as amended. When the store call does not fail, the finalize update touches a row
  if and only if some row of the session is \<^verbatim>\<open>active_by_helper\<close> or carries the caller's
  name, and the helper logs which of the two happened. When no row was touched (or the
  store call failed) the table and the outbox stay as they were: no retry, no
  notification. When a row was touched, the final message is sent exactly once if the
  session was in the Map when finalize was called, and not at all if it was not.
\<close>

theorem finalize_write_and_notification:
  "(\<not> dbFails \<longrightarrow>
      (snd (finalize_update fs sc (initialRolls_of (map_of (activeHelperSessions st) sid) @ rolls)
              note sid (botUsername st) now (stored st)) > 0
       \<longleftrightarrow> write_takes_effect sid st)) \<and>
   last (console (finalizeJackpotSession dbFails now sid fs sc rolls note st)) =
     (if dbFails then Finalize_db_error sid
      else if write_takes_effect sid st then Db_record_updated sid fs
      else Did_not_update sid) \<and>
   (dbFails \<or> \<not> write_takes_effect sid st \<longrightarrow>
      stored (finalizeJackpotSession dbFails now sid fs sc rolls note st) = stored st \<and>
      outbox (finalizeJackpotSession dbFails now sid fs sc rolls note st) = outbox st) \<and>
   (\<not> dbFails \<and> write_takes_effect sid st \<longrightarrow>
      outbox (finalizeJackpotSession dbFails now sid fs sc rolls note st) =
        outbox st @
        (case map_of (activeHelperSessions st) sid of
           None \<Rightarrow> []
         | Some sd \<Rightarrow> [Final_message (chat_id sd) sid sc note]))"
proof -
  have w: "write_takes_effect sid st \<longleftrightarrow> (\<exists>r \<in> set (stored st). finalize_matches sid (botUsername st) r)"
    by (auto simp: write_takes_effect_def list_ex_iff finalize_matches_def)
  have c: "snd (finalize_update fs sc xs note sid (botUsername st) now (stored st)) > 0
             \<longleftrightarrow> write_takes_effect sid st" for xs
    by (simp only: finalize_update_count w)
  have n: "\<not> write_takes_effect sid st \<Longrightarrow>
             fst (finalize_update fs sc xs note sid (botUsername st) now (stored st)) = stored st" for xs
    by (rule finalize_update_noop) (simp add: w)
  show ?thesis
    by (simp add: fin_stored fin_outbox fin_console c n)
qed

theorem finalize_write_and_notification_witness:
  "write_takes_effect 1 ex_claimed \<and>
   outbox (finalizeJackpotSession False 11 1 completed_bust (Num 8) [1] (Busted_on 1) ex_claimed) =
     outbox ex_claimed @ [Final_message 9 1 (Num 8) (Busted_on 1)] \<and>
   \<not> write_takes_effect 2 ex_claimed \<and>
   stored (finalizeJackpotSession False 11 2 completed_bust (Num 8) [1] (Busted_on 1) ex_claimed) =
     stored ex_claimed \<and>
   outbox (finalizeJackpotSession False 11 2 completed_bust (Num 8) [1] (Busted_on 1) ex_claimed) =
     outbox ex_claimed"
  using finalize_write_and_notification [of False completed_bust "Num 8" ex_claimed 1 "[1]" "Busted_on 1" 11]
        finalize_write_and_notification [of False completed_bust "Num 8" ex_claimed 2 "[1]" "Busted_on 1" 11]
  by (simp add: ex_claimed_eq write_takes_effect_def ex_row_def)

text \<open>
  The claim as stated fails: for a session that is not in the Map the update is reported
  as done, and nothing is sent.
\<close>

theorem notification_counterexample:
  "last (console (finalizeJackpotSession False 12 1 completed_timeout_forfeit (Num 7) [] Turn_timed_out
                    ex_finalized)) = Db_record_updated 1 completed_timeout_forfeit \<and>
   outbox (finalizeJackpotSession False 12 1 completed_timeout_forfeit (Num 7) [] Turn_timed_out
             ex_finalized) = outbox ex_finalized"
  by (simp add: ex_finalized_def eval_defs)

section \<open>A finalized session takes no more rolls\<close>

text \<open>
  C7. \<^verbatim>\<open>finalizeJackpotSession\<close> removes the session from the Map before the store call
  and whatever the store call does (\<open>dbFails\<close> is arbitrary, and so is the table). A roll
  of the session's player in the session's chat that arrives afterwards finds no entry
  and leaves the whole state as it is; and no later message of anybody brings the
  session back into the Map.
\<close>

theorem finalized_session_ignores_rolls:
  assumes "\<forall>e \<in> set (activeHelperSessions st). roll_matches userId chatId e \<longrightarrow> fst e = sid"
    and "msg_from msg = Some (userId, isBot)"
    and "msg_chat msg = chatId"
  shows "map_of (activeHelperSessions
                  (finalizeJackpotSession dbFails now sid fs sc rolls outcome st)) sid = None \<and>
         on_message dbFails' now' msg (finalizeJackpotSession dbFails now sid fs sc rolls outcome st) =
           (None, finalizeJackpotSession dbFails now sid fs sc rolls outcome st) \<and>
         (\<forall>anyMsg. map_of (activeHelperSessions
                      (snd (on_message dbFails' now' anyMsg
                              (finalizeJackpotSession dbFails now sid fs sc rolls outcome st)))) sid = None)"
proof -
  let ?st' = "finalizeJackpotSession dbFails now sid fs sc rolls outcome st"
  have gone: "map_of (activeHelperSessions ?st') sid = None"
    by (simp add: fin_active map_of_delete_same)
  have "find (roll_matches userId chatId) (activeHelperSessions ?st') = None"
    unfolding fin_active using assms(1) by (rule find_delete_None)
  then have ignored: "on_message dbFails' now' msg ?st' = (None, ?st')"
    using assms(2,3) by (simp add: on_message_def split: option.splits)
  have "map_of (activeHelperSessions (snd (on_message dbFails' now' anyMsg ?st'))) sid = None" for anyMsg
  proof -
    from gone have "sid \<notin> fst ` set (activeHelperSessions ?st')"
      by (simp add: map_of_eq_None_iff)
    with on_message_keys [of dbFails' now' anyMsg ?st']
    have "sid \<notin> fst ` set (activeHelperSessions (snd (on_message dbFails' now' anyMsg ?st')))"
      by blast
    then show ?thesis by (simp add: map_of_eq_None_iff)
  qed
  with gone ignored show ?thesis by blast
qed

theorem finalized_session_ignores_rolls_witness:
  "map fst (filter (roll_matches 5 9) (activeHelperSessions ex_claimed)) = [1] \<and>
   msg_from (ex_dice 4) = Some (5, False) \<and> msg_chat (ex_dice 4) = 9 \<and>
   on_message False 13 (ex_dice 4)
     (finalizeJackpotSession True 12 1 completed_timeout_forfeit (Num 7) [] Turn_timed_out ex_claimed) =
   (None, finalizeJackpotSession True 12 1 completed_timeout_forfeit (Num 7) [] Turn_timed_out ex_claimed)"
  using finalized_session_ignores_rolls [where st = ex_claimed and userId = 5 and chatId = 9
          and sid = 1 and msg = "ex_dice 4" and isBot = False and dbFails = True and now = 12
          and fs = completed_timeout_forfeit and sc = "Num 7" and rolls = "[]" and outcome = Turn_timed_out
          and dbFails' = False and now' = 13]
  by (simp add: ex_claimed_eq ex_dice_def roll_matches_def)

section \<open>One timer per session\<close>

text \<open>
  C8. In every state the helper reaches, a session has at most one pending inactivity
  timer: exactly one while it is in the Map, none otherwise. So after any number of
  accepted rolls that leave the session active exactly one timer is pending. Issuing a
  prompt for a session in the Map cancels the armed timer and arms one fresh timer (the
  new handle was not pending before), and finalizing a session leaves none of its
  timers pending.
\<close>

theorem one_timer_per_session:
  assumes "st = run_events (initial_state botName tbl) evs"
  shows "length (pending_timers sid st) \<le> 1 \<and>
         (map_of (activeHelperSessions st) sid \<noteq> None \<longrightarrow> length (pending_timers sid st) = 1) \<and>
         (map_of (activeHelperSessions st) sid = None \<longrightarrow> pending_timers sid st = []) \<and>
         (map_of (activeHelperSessions st) sid \<noteq> None \<longrightarrow>
            pending_timers sid (snd (sendJackpotRunUpdate sid lastRoll st)) = [next_timer st] \<and>
            next_timer st \<notin> set (pending_timers sid st)) \<and>
         pending_timers sid (finalizeJackpotSession dbFails now sid fs sc rolls outcome st) = []"
proof -
  have inv: "helper_inv st"
    unfolding assms by (rule reachable_inv)
  note pt = pending_timers_of_inv [OF inv, of sid]
  have one: "length (pending_timers sid st) \<le> 1"
    unfolding pt by (simp split: option.splits)
  have none: "pending_timers sid st = []" if "map_of (activeHelperSessions st) sid = None"
    unfolding pt using that by simp
  have live: "length (pending_timers sid st) = 1 \<and>
              pending_timers sid (snd (sendJackpotRunUpdate sid lastRoll st)) = [next_timer st] \<and>
              next_timer st \<notin> set (pending_timers sid st)"
    if "map_of (activeHelperSessions st) sid \<noteq> None"
  proof -
    from that obtain sd where m: "map_of (activeHelperSessions st) sid = Some sd" by auto
    with inv have ok: "session_ok st (sid, sd)" by (simp add: helper_inv_alt)
    then obtain t where h: "turnTimeoutId sd = Some t" and tin: "(t, sid) \<in> set (timers st)"
      and core: "session_core st (sid, sd)"
      unfolding session_ok_iff by blast
    from inv tin have "timer_ok st (t, sid)" by (simp add: helper_inv_alt)
    then have lt: "t < next_timer st" by (simp add: timer_ok_iff)
    have inv': "helper_inv (snd (sendJackpotRunUpdate sid lastRoll st))"
      by (rule prompt_restores_inv [OF helper_inv_except [OF inv] m core])
    from core have p: "jackpot_pool_at_session_start sd \<noteq> None" and a: "status sd = active_by_helper"
      by (simp_all add: session_core_def)
    have "pending_timers sid (snd (sendJackpotRunUpdate sid lastRoll st)) = [next_timer st]"
      unfolding pending_timers_of_inv [OF inv'] sjru_ok_fields(4) [OF m p a]
      by simp
    with m h lt show ?thesis
      unfolding pt by simp
  qed
  have fin: "pending_timers sid (finalizeJackpotSession dbFails now sid fs sc rolls outcome st) = []"
  proof (cases "map_of (activeHelperSessions st) sid")
    case None
    then show ?thesis
      using none by (simp add: pending_timers_def fin_timers)
  next
    case (Some sd)
    with inv have "session_ok st (sid, sd)" by (simp add: helper_inv_alt)
    then obtain t where h: "turnTimeoutId sd = Some t"
      unfolding session_ok_iff by blast
    have "timers (finalizeJackpotSession dbFails now sid fs sc rolls outcome st) =
          filter (\<lambda>p. fst p \<noteq> t) (timers st)"
      using Some h by (simp add: fin_timers)
    then have "pending_timers sid (finalizeJackpotSession dbFails now sid fs sc rolls outcome st) =
          filter (\<lambda>x. x \<noteq> t) (pending_timers sid st)"
      unfolding pending_timers_def by (simp only: pending_after_clear)
    also have "\<dots> = []"
      unfolding pt using Some h by simp
    finally show ?thesis .
  qed
  from one none live fin show ?thesis by blast
qed

theorem one_timer_per_session_witness:
  "timers (run_events (initial_state ''h'' [ex_row])
             [Poll 1 (\<lambda>i. ex_env), Dice False 11 (ex_dice 4), Dice False 12 (ex_dice 5)]) = [(2, 1)] \<and>
   pending_timers 1 (run_events (initial_state ''h'' [ex_row])
             [Poll 1 (\<lambda>i. ex_env), Dice False 11 (ex_dice 4), Dice False 12 (ex_dice 5)]) = [2] \<and>
   pending_timers 1 (run_events (initial_state ''h'' [ex_row])
             [Poll 1 (\<lambda>i. ex_env), Dice False 11 (ex_dice 4), Dice False 12 (ex_dice 1)]) = [] \<and>
   pending_timers 1 (snd (sendJackpotRunUpdate 1 None ex_claimed)) = [1]"
  using one_timer_per_session [of "run_events (initial_state ''h'' [ex_row])
             [Poll 1 (\<lambda>i. ex_env), Dice False 11 (ex_dice 4), Dice False 12 (ex_dice 5)]"
          "''h''" "[ex_row]"
          "[Poll 1 (\<lambda>i. ex_env), Dice False 11 (ex_dice 4), Dice False 12 (ex_dice 5)]" 1
          None False 13 completed_timeout_forfeit "Num 16" "[4, 5]" Turn_timed_out]
        one_timer_per_session [of ex_claimed "''h''" "[ex_row]" "[Poll 1 (\<lambda>i. ex_env)]" 1
          None False 13 completed_timeout_forfeit "Num 7" "[]" Turn_timed_out]
  by (simp add: ex_claimed_def pending_timers_def eval_defs)

section \<open>A failed claim attempt\<close>

text \<open>
  C9. The claim says that a lost race or a store error in one claim attempt never raises
  out of the loop and never aborts the remaining attempts of the tick. The source
  rolls the attempt back, and then evaluates \<^verbatim>\<open>selectRes\<close> outside its block: with two
  attempts to make and two pending rows, a store error in the first attempt (and
  likewise a lost race) ends the tick with a \<^verbatim>\<open>ReferenceError\<close>; the second row is not
  attempted and stays pending.
\<close>

theorem failed_claim_aborts_tick:
  "checkAndInitiateJackpotSessions 2
     (\<lambda>i. if i = 0 then ex_env\<lparr>fault := Update_fails\<rparr> else ex_env)
     (initial_state ''h'' [ex_row, ex_row2]) =
   (Some (ReferenceError ''selectRes''),
    (initial_state ''h'' [ex_row, ex_row2])\<lparr>console := [Claim_db_error]\<rparr>) \<and>
   checkAndInitiateJackpotSessions 2
     (\<lambda>i. if i = 0 then ex_env\<lparr>rivals := [(''g'', 10, 1)]\<rparr> else ex_env)
     (initial_state ''h'' [ex_row, ex_row2]) =
   (Some (ReferenceError ''selectRes''),
    (initial_state ''h''
       [ex_row\<lparr>status := active_by_helper, helper_bot_id := Some ''g'', updated_at := 10\<rparr>, ex_row2])
    \<lparr>console := [Failed_to_claim 1]\<rparr>)"
  by (simp add: eval_defs numeral_2_eq_2)

section \<open>Finalizing a session that is not in memory\<close>

text \<open>
  C10. Calling \<^verbatim>\<open>finalizeJackpotSession\<close> for a session id that is not in
  \<^verbatim>\<open>activeHelperSessions\<close> does not throw. It warns, leaves Map and timers alone, and
  still runs the conditional update, with a final roll sequence that is just the run
  rolls the caller passed (the initial rolls count as empty). It sends no message to the
  player, also when the update touched a row: the outbox does not change.
\<close>

theorem finalize_absent_session:
  assumes "map_of (activeHelperSessions st) sessionId = None"
  shows "finalizeJackpotSession dbFails now sessionId finalStatus finalOverallScore
           jackpotRunRollsArray outcomeNotesStr st =
         (if dbFails then
            st\<lparr>console := console st @ [No_session_in_memory sessionId, Finalize_db_error sessionId]\<rparr>
          else
            st\<lparr>stored := fst (finalize_update finalStatus finalOverallScore jackpotRunRollsArray
                                outcomeNotesStr sessionId (botUsername st) now (stored st)),
               console := console st @
                 [No_session_in_memory sessionId,
                  if snd (finalize_update finalStatus finalOverallScore jackpotRunRollsArray
                            outcomeNotesStr sessionId (botUsername st) now (stored st)) > 0
                  then Db_record_updated sessionId finalStatus
                  else Did_not_update sessionId]\<rparr>)"
  using assms
  by (simp add: finalizeJackpotSession_def initialRolls_of_def delete_absent Let_def)

theorem finalize_absent_session_witness:
  "map_of (activeHelperSessions ex_finalized) 1 = None \<and>
   map final_rolls_json
     (stored (finalizeJackpotSession False 11 1 error_sending_message (Num 8) [1]
                Helper_failed_to_send ex_finalized)) = [Some [1]] \<and>
   outbox (finalizeJackpotSession False 11 1 error_sending_message (Num 8) [1]
             Helper_failed_to_send ex_finalized) = [] \<and>
   console (finalizeJackpotSession False 11 1 error_sending_message (Num 8) [1]
             Helper_failed_to_send ex_finalized) =
     [No_session_in_memory 1, Db_record_updated 1 error_sending_message]"
  using finalize_absent_session [of ex_finalized 1 False 11 error_sending_message "Num 8" "[1]"
          Helper_failed_to_send]
  by (simp add: ex_finalized_def initial_state_def ex_row_def finalize_update_def
        finalize_matches_def finalize_set_def)

end
